theory Spec2Isabelle
  imports
    Main
    "HOL-Library.Word"
    "HOL-Library.Sublist"
    "HOL-Library.Char_ord"
    "HOL-Library.List_Lexorder"
    "HOL-Library.Multiset"
begin

section \<open>The web asset compiler (generate\_pages.py) and the route matcher it emits\<close>

text \<open>
  The script \<^verbatim>\<open>src/web/build/generate_pages.py\<close> reads the directory of minified web
  assets, builds one page dictionary per asset and writes three C++ files; the last of them
  carries the function \<^verbatim>\<open>findPage\<close>, which the firmware calls with a request path.

  Scope of the model. File names and request paths are \<^typ>\<open>string\<close>s of ASCII characters
  (Python compares \<^verbatim>\<open>str\<close> by code point, which is the order of \<^typ>\<open>char\<close> there;
  \<^verbatim>\<open>upper\<close> and \<open>lower\<close> are the ASCII ones). Paths are POSIX paths, compared case
  sensitively. Reading the directory and writing the three files do not fail. The library
  calls are those of CPython up to 3.13 (\<^verbatim>\<open>pathlib\<close>, \<^verbatim>\<open>gzip\<close>, \<^verbatim>\<open>str\<close>).
\<close>

subsection \<open>Bytes and text\<close>

unbundle bit_operations_syntax

type_synonym byte = "8 word"
type_synonym bytes = "byte list"

definition NL :: string where
  "NL = [CHR 0x0A]"

text \<open>\<^verbatim>\<open>str.lower\<close> and \<^verbatim>\<open>str.upper\<close> on ASCII text.\<close>

definition lower_chr :: "char \<Rightarrow> char" where
  "lower_chr c =
     (case map_of (zip ''ABCDEFGHIJKLMNOPQRSTUVWXYZ'' ''abcdefghijklmnopqrstuvwxyz'') c of
        Some d \<Rightarrow> d
      | None \<Rightarrow> c)"

definition upper_chr :: "char \<Rightarrow> char" where
  "upper_chr c =
     (case map_of (zip ''abcdefghijklmnopqrstuvwxyz'' ''ABCDEFGHIJKLMNOPQRSTUVWXYZ'') c of
        Some d \<Rightarrow> d
      | None \<Rightarrow> c)"

definition lower :: "string \<Rightarrow> string" where
  "lower s = map lower_chr s"

definition upper :: "string \<Rightarrow> string" where
  "upper s = map upper_chr s"

text \<open>
  \<^verbatim>\<open>s.replace(old, new)\<close>: every occurrence of \<open>old\<close>, found from the left and not
  overlapping an earlier one, becomes \<open>new\<close>. With an empty \<open>old\<close> Python puts \<open>new\<close> before
  every character and at the end.
\<close>

function replace :: "string \<Rightarrow> string \<Rightarrow> string \<Rightarrow> string" where
  "replace old new [] = (if old = [] then new else [])"
| "replace old new (c # cs) =
     (if old = [] then new @ c # replace old new cs
      else if prefix old (c # cs) then new @ replace old new (drop (length old) (c # cs))
      else c # replace old new cs)"
  by pat_completeness auto
termination
  by (relation "measure (\<lambda>(old, new, s). length s)") auto

text \<open>\<^verbatim>\<open>str(n)\<close> for a non-negative integer: its decimal digits.\<close>

definition digit_chr :: "nat \<Rightarrow> char" where
  "digit_chr n = ''0123456789abcdef'' ! (n mod 16)"

function str_nat :: "nat \<Rightarrow> string" where
  "str_nat n = (if n < 10 then [digit_chr n] else str_nat (n div 10) @ [digit_chr (n mod 10)])"
  by pat_completeness auto
termination
  by (relation "measure id") auto

declare str_nat.simps [simp del]

text \<open>The format \<^verbatim>\<open>{b:02x}\<close> of a byte: two lower-case hexadecimal digits.\<close>

definition hex02 :: "byte \<Rightarrow> string" where
  "hex02 b = [digit_chr (unat b div 16), digit_chr (unat b mod 16)]"

text \<open>\<^verbatim>\<open>str(b).lower()\<close> of a Python bool.\<close>

definition str_bool_lower :: "bool \<Rightarrow> string" where
  "str_bool_lower b = (if b then ''true'' else ''false'')"

subsection \<open>pathlib\<close>

text \<open>
  One entry of \<^verbatim>\<open>WEB.iterdir()\<close>: the \<^verbatim>\<open>Path\<close> with what the file system answers for
  it. \<open>read_bytes\<close> is only read for a file.
\<close>

record entry =
  name :: string
  is_file :: bool
  read_bytes :: bytes

text \<open>\<^verbatim>\<open>str.rfind\<close> of one character, \<open>None\<close> for Python's \<open>-1\<close>.\<close>

fun rfind :: "string \<Rightarrow> char \<Rightarrow> nat option" where
  "rfind [] c = None"
| "rfind (x # xs) c =
     (case rfind xs c of
        Some i \<Rightarrow> Some (Suc i)
      | None \<Rightarrow> if x = c then Some 0 else None)"

text \<open>
  \<^verbatim>\<open>PurePath.suffix\<close>: with \<open>i\<close> the place of the last dot of the name, the name from
  \<open>i\<close> on when \<open>0 < i < len(name) - 1\<close>, and the empty string otherwise.
\<close>

definition suffix_of :: "string \<Rightarrow> string" where
  "suffix_of nm =
     (case rfind nm CHR ''.'' of
        None \<Rightarrow> []
      | Some i \<Rightarrow> if 0 < i \<and> i + 1 < length nm then drop i nm else [])"

subsection \<open>gzip\<close>

text \<open>
  \<^verbatim>\<open>zlib.crc32\<close>: the CRC-32 of the gzip format, bit by bit (reflected polynomial
  \<open>0xEDB88320\<close>, all ones at the start and as the final mask).
\<close>

definition crc_step :: "32 word \<Rightarrow> 32 word" where
  "crc_step c = (if bit c 0 then drop_bit 1 c XOR 0xEDB88320 else drop_bit 1 c)"

definition crc_byte :: "byte \<Rightarrow> 32 word \<Rightarrow> 32 word" where
  "crc_byte b c =
     crc_step (crc_step (crc_step (crc_step (crc_step (crc_step (crc_step (crc_step
       (c XOR ucast b))))))))"

definition crc32 :: "bytes \<Rightarrow> 32 word" where
  "crc32 bs = NOT (fold crc_byte bs (NOT 0))"

text \<open>
  \<^verbatim>\<open>gzip.compress(raw, compresslevel=9)\<close> of CPython, with \<open>mtime\<close> left out, returns
  the ten bytes of a gzip header, the raw deflate stream of \<open>raw\<close> and the trailer (checksum
  and length of \<open>raw\<close>). The header holds, little endian, \<^verbatim>\<open>int(time.time())\<close> as read
  during the call. The deflate encoder belongs to zlib and the clock to the machine: the two
  are the environment of a run. \<open>time_time env nm\<close> is the clock reading taken while the
  file called \<open>nm\<close> is compressed, a 32-bit value as the header field is.
\<close>

record pyenv =
  deflate :: "bytes \<Rightarrow> bytes"
  time_time :: "string \<Rightarrow> 32 word"

definition le32 :: "32 word \<Rightarrow> bytes" where
  "le32 w = [ucast w, ucast (drop_bit 8 w), ucast (drop_bit 16 w), ucast (drop_bit 24 w)]"

definition gzip_header :: "32 word \<Rightarrow> bytes" where
  "gzip_header mtime = [0x1f, 0x8b, 8, 0] @ le32 mtime @ [2, 255]"

definition gzip_compress :: "pyenv \<Rightarrow> 32 word \<Rightarrow> bytes \<Rightarrow> bytes" where
  "gzip_compress env mtime raw =
     gzip_header mtime @ deflate env raw @ le32 (crc32 raw) @ le32 (of_nat (length raw))"

text \<open>
  Decompression of such a stream, as \<^verbatim>\<open>gzip.decompress\<close> does it for one member without
  optional fields: the header is checked and skipped, the decoder \<open>inflate\<close> of zlib returns
  the decoded bytes with what follows the deflate stream, and that must be the trailer of
  the decoded bytes. The modification time is ignored.
\<close>

definition gunzip :: "(bytes \<Rightarrow> (bytes \<times> bytes) option) \<Rightarrow> bytes \<Rightarrow> bytes option" where
  "gunzip inflate bs =
     (if length bs < 10 \<or> take 4 bs \<noteq> [0x1f, 0x8b, 8, 0] then None
      else (case inflate (drop 10 bs) of
              None \<Rightarrow> None
            | Some (out, rest) \<Rightarrow>
                if rest = le32 (crc32 out) @ le32 (of_nat (length out)) then Some out
                else None))"

subsection \<open>The script\<close>

definition PAGES_CPP :: string where
  "PAGES_CPP = ''src/web_pages.cpp''"

definition PAGES_H :: string where
  "PAGES_H = ''src/web_pages.h''"

definition ROUTER_CPP :: string where
  "ROUTER_CPP = ''src/page_router.cpp''"

definition MIME :: "string \<rightharpoonup> string" where
  "MIME = map_of
     [(''.html'', ''text/html''),
      (''.css'', ''text/css''),
      (''.js'', ''application/javascript'')]"

definition symbol :: "string \<Rightarrow> string" where
  "symbol nm = replace ''-'' ''_'' (replace ''.'' ''_'' (upper nm))"

definition is_nogz :: "string \<Rightarrow> bool" where
  "is_nogz filename = sublist ''.nogz.'' filename"

text \<open>
  The dictionary appended to \<open>pages\<close>; the key \<^verbatim>\<open>"symbol"\<close> is the field \<open>sym\<close>.
\<close>

record page =
  url :: string
  sym :: string
  data :: bytes
  len :: nat
  mime :: string
  gzip :: bool

datatype error = KeyError string | FileNotFoundError string

definition url_of :: "string \<Rightarrow> string" where
  "url_of nm = (if nm = ''index.html'' then ''/'' else ''/'' @ replace ''.nogz'' [] nm)"

text \<open>
  The body of the loop of \<open>gen\<close> for a file \<open>f\<close> that passed both \<^verbatim>\<open>continue\<close> tests,
  with its lower-cased suffix \<open>ext\<close>.
\<close>

definition make_page :: "pyenv \<Rightarrow> entry \<Rightarrow> string \<Rightarrow> error + page" where
  "make_page env f ext =
     (let u = url_of (name f);
          raw = read_bytes f;
          gzip_enabled = \<not> is_nogz (name f);
          d = (if gzip_enabled then gzip_compress env (time_time env (name f)) raw else raw)
      in case MIME ext of
           None \<Rightarrow> Inl (KeyError ext)
         | Some m \<Rightarrow>
             Inr \<lparr>url = u,
                  sym = symbol (name f) @ (if gzip_enabled then ''_GZ'' else []),
                  data = d,
                  len = length d,
                  mime = m,
                  gzip = gzip_enabled\<rparr>)"

text \<open>The loop of \<open>gen\<close> over the sorted entries, \<open>pages\<close> being the list built so far.\<close>

fun gen_loop :: "pyenv \<Rightarrow> entry list \<Rightarrow> page list \<Rightarrow> error + page list" where
  "gen_loop env [] pages = Inr pages"
| "gen_loop env (f # fs) pages =
     (if \<not> is_file f then gen_loop env fs pages
      else
        let ext = lower (suffix_of (name f)) in
        if MIME ext = None then gen_loop env fs pages
        else
          (case make_page env f ext of
             Inl e \<Rightarrow> Inl e
           | Inr p \<Rightarrow> gen_loop env fs (pages @ [p])))"

definition gen_pages :: "pyenv \<Rightarrow> entry list \<Rightarrow> error + page list" where
  "gen_pages env listing = gen_loop env (sort_key name listing) []"

subsection \<open>The three generated files\<close>

definition DQ :: string where
  "DQ = [CHR 0x22]"

definition SQ :: string where
  "SQ = [CHR 0x27]"

definition h_decl :: "page \<Rightarrow> string" where
  "h_decl p =
     ''extern const uint8_t '' @ sym p @ ''[];'' @ NL @
     ''extern const size_t '' @ sym p @ ''_LEN;'' @ NL @ NL"

definition web_pages_h :: "page list \<Rightarrow> string" where
  "web_pages_h pages =
     ''#ifndef WEB_PAGES_H'' @ NL @
     ''#define WEB_PAGES_H'' @ NL @ NL @
     ''#include <Arduino.h>'' @ NL @ NL @
     concat (map h_decl pages) @
     ''#endif'' @ NL"

text \<open>
  The inner loop \<^verbatim>\<open>for i, b in enumerate(p["data"])\<close>: one token per byte, a line
  break after every twelfth.
\<close>

fun hex_dump :: "nat \<Rightarrow> bytes \<Rightarrow> string" where
  "hex_dump i [] = []"
| "hex_dump i (b # bs) =
     ''0x'' @ hex02 b @ '','' @ (if i mod 12 = 11 then NL else []) @ hex_dump (Suc i) bs"

definition cpp_array :: "page \<Rightarrow> string" where
  "cpp_array p =
     ''const uint8_t '' @ sym p @ ''[] PROGMEM = {'' @ NL @
     hex_dump 0 (data p) @
     NL @ ''};'' @ NL"

definition cpp_len :: "page \<Rightarrow> string" where
  "cpp_len p = ''const size_t '' @ sym p @ ''_LEN = '' @ str_nat (len p) @ '';'' @ NL @ NL"

definition web_pages_cpp :: "page list \<Rightarrow> string" where
  "web_pages_cpp pages =
     ''#include <Arduino.h>'' @ NL @
     ''#include '' @ DQ @ ''web_pages.h'' @ DQ @ NL @ NL @
     concat (map (\<lambda>p. cpp_array p @ cpp_len p) pages)"

definition router_row :: "page \<Rightarrow> string" where
  "router_row p =
     ''  { '' @ DQ @ url p @ DQ @ '', '' @ sym p @ '', '' @ sym p @ ''_LEN, '' @
     DQ @ mime p @ DQ @ '', '' @ str_bool_lower (gzip p) @ '' },'' @ NL"

text \<open>The text of \<^verbatim>\<open>findPage\<close>, written out unchanged by every run.\<close>

definition findPage_text :: string where
  "findPage_text = concat (map (\<lambda>l. l @ NL)
     [''const Page *findPage(const char *path)'',
      ''{'',
      ''  size_t plen = strlen(path);'',
      [],
      ''  for (auto &p : pages)'',
      ''  {'',
      ''    const char *ppath = p.path;'',
      ''    size_t flen = strlen(ppath);'',
      [],
      ''    // 1) Exact match: '' @ DQ @ ''/foo.js'' @ DQ @ '' == '' @ DQ @ ''/foo.js'' @ DQ,
      ''    if (plen == flen && memcmp(path, ppath, plen) == 0)'',
      ''      return &p;'',
      [],
      ''    // 2) Extensionless match: '' @ DQ @ ''/foo'' @ DQ @ '' == '' @ DQ @ ''/foo.<ext>'' @ DQ,
      ''    // Find '' @ SQ @ ''.'' @ SQ @ '' in stored path'',
      ''    const char *dot = strchr(ppath, '' @ SQ @ ''.'' @ SQ @ '');'',
      ''    if (!dot)'',
      ''      continue;'',
      [],
      ''    size_t baseLen = dot - ppath;'',
      [],
      ''    if (plen == baseLen && memcmp(path, ppath, baseLen) == 0)'',
      ''      return &p;'',
      ''  }'',
      [],
      ''  return nullptr;'',
      ''}''])"

definition page_router_cpp :: "page list \<Rightarrow> string" where
  "page_router_cpp pages =
     ''#include <string.h>'' @ NL @
     ''#include '' @ DQ @ ''page_router.h'' @ DQ @ NL @
     ''#include '' @ DQ @ ''web_pages.h'' @ DQ @ NL @ NL @
     ''static const Page pages[] = {'' @ NL @
     concat (map router_row pages) @
     ''};'' @ NL @ NL @
     findPage_text"

subsection \<open>A run of the script\<close>

text \<open>
  What a run reads and changes: the listing of \<^verbatim>\<open>src/web/build\<close> (\<open>None\<close> when the
  directory does not exist), the text files on disk by path, and the lines printed.
\<close>

record world =
  web_dir :: "entry list option"
  files :: "string \<rightharpoonup> string"
  stdout :: "string list"

datatype outcome = Completed | SystemExit int | Raised error

definition gen :: "pyenv \<Rightarrow> world \<Rightarrow> error + world" where
  "gen env w =
     (case web_dir w of
        None \<Rightarrow> Inl (FileNotFoundError ''src/web/build'')
      | Some listing \<Rightarrow>
          (case gen_pages env listing of
             Inl e \<Rightarrow> Inl e
           | Inr pages \<Rightarrow>
               Inr (w\<lparr>files := (files w)
                          (PAGES_H \<mapsto> web_pages_h pages,
                           PAGES_CPP \<mapsto> web_pages_cpp pages,
                           ROUTER_CPP \<mapsto> page_router_cpp pages),
                       stdout := stdout w @
                          [''Generated '' @ str_nat (length pages) @ '' web assets'']\<rparr>)))"

definition skip_warning :: "string list" where
  "skip_warning =
     [''Warning: No minified files found in src/web/build/'',
      ''Skipping code generation. Using existing pre-generated files from repository.'',
      ''To regenerate, ensure minify.py runs first or minified files exist.'']"

text \<open>
  The module body: the test of lines 13 to 17 (\<^verbatim>\<open>any\<close> of a listing is true when it
  has an entry), then the call of \<open>gen\<close>.
\<close>

definition script :: "pyenv \<Rightarrow> world \<Rightarrow> world \<times> outcome" where
  "script env w =
     (if (case web_dir w of None \<Rightarrow> True | Some listing \<Rightarrow> listing = [])
      then (w\<lparr>stdout := stdout w @ skip_warning\<rparr>, SystemExit 0)
      else (case gen env w of
              Inl e \<Rightarrow> (w, Raised e)
            | Inr w' \<Rightarrow> (w', Completed)))"

subsection \<open>The route matcher\<close>

text \<open>
  Modelled from the spec: the struct \<^verbatim>\<open>Page\<close> is declared in \<^verbatim>\<open>page_router.h\<close>,
  which is not among the sources. Its fields are those of the initialiser that
  \<open>router_row\<close> writes, in that order: the path, the data array and the length constant (each
  by the symbol that names it), the MIME type and the gzip flag.
\<close>

record Page =
  path :: string
  data_sym :: string
  len_sym :: string
  mime_type :: string
  gzipped :: bool

definition static_Page :: "page \<Rightarrow> Page" where
  "static_Page p =
     \<lparr>path = url p, data_sym = sym p, len_sym = sym p @ ''_LEN'',
      mime_type = mime p, gzipped = gzip p\<rparr>"

text \<open>
  The C library on strings without their terminator: \<^verbatim>\<open>memcmp(a, b, n) == 0\<close>, and
  \<^verbatim>\<open>strchr\<close> as the offset of the first occurrence (\<open>None\<close> for the null pointer).
\<close>

definition memcmp_eq :: "string \<Rightarrow> string \<Rightarrow> nat \<Rightarrow> bool" where
  "memcmp_eq a b n = (take n a = take n b)"

fun strchr :: "string \<Rightarrow> char \<Rightarrow> nat option" where
  "strchr [] c = None"
| "strchr (x # xs) c = (if x = c then Some 0 else map_option Suc (strchr xs c))"

text \<open>
  \<^verbatim>\<open>findPage\<close> over the table \<open>pages\<close>; \<open>req\<close> is its argument \<^verbatim>\<open>path\<close>. The result
  \<open>Some p\<close> is the pointer to the row, \<open>None\<close> is \<^verbatim>\<open>nullptr\<close>.
\<close>

fun findPage :: "Page list \<Rightarrow> string \<Rightarrow> Page option" where
  "findPage [] req = None"
| "findPage (p # ps) req =
     (let plen = length req;
          ppath = path p;
          flen = length ppath
      in if plen = flen \<and> memcmp_eq req ppath plen then Some p
         else (case strchr ppath CHR ''.'' of
                 None \<Rightarrow> findPage ps req
               | Some baseLen \<Rightarrow>
                   if plen = baseLen \<and> memcmp_eq req ppath baseLen then Some p
                   else findPage ps req))"

subsection \<open>Notions used by the statements\<close>

text \<open>
  The lower-cased suffix computed at line 41, and the two \<^verbatim>\<open>continue\<close> tests of the
  loop taken together: an entry qualifies when the loop builds a page for it.
\<close>

definition ext_of :: "entry \<Rightarrow> string" where
  "ext_of f = lower (suffix_of (name f))"

definition qualifies :: "entry \<Rightarrow> bool" where
  "qualifies f = (is_file f \<and> MIME (ext_of f) \<noteq> None)"

text \<open>
  A deflate codec for the examples: one final stored block (RFC 1951, block type 00), which
  holds up to 65535 bytes, and its decoder.
\<close>

definition le16 :: "16 word \<Rightarrow> bytes" where
  "le16 w = [ucast w, ucast (drop_bit 8 w)]"

definition stored_deflate :: "bytes \<Rightarrow> bytes" where
  "stored_deflate raw =
     [1] @ le16 (of_nat (length raw)) @ le16 (NOT (of_nat (length raw))) @ raw"

definition stored_inflate :: "bytes \<Rightarrow> (bytes \<times> bytes) option" where
  "stored_inflate bs =
     (case bs of
        h # l0 # l1 # n0 # n1 # body \<Rightarrow>
          (let n = unat l0 + 256 * unat l1
           in if h = 1 \<and> n0 = NOT l0 \<and> n1 = NOT l1 \<and> n \<le> length body
              then Some (take n body, drop n body) else None)
      | _ \<Rightarrow> None)"

definition stored_env :: "32 word \<Rightarrow> pyenv" where
  "stored_env t = \<lparr>deflate = stored_deflate, time_time = (\<lambda>nm. t)\<rparr>"

definition file_entry :: "string \<Rightarrow> bytes \<Rightarrow> entry" where
  "file_entry nm raw = \<lparr>name = nm, is_file = True, read_bytes = raw\<rparr>"

definition dir_entry :: "string \<Rightarrow> entry" where
  "dir_entry nm = \<lparr>name = nm, is_file = False, read_bytes = []\<rparr>"

text \<open>\<^verbatim>\<open>sep.join(ps)\<close>, to say which pieces a name is made of.\<close>

fun join :: "string \<Rightarrow> string list \<Rightarrow> string" where
  "join sep [] = []"
| "join sep [p] = p"
| "join sep (p # q # ps) = p @ sep @ join sep (q # ps)"

text \<open>
  The emitted C text read back: the value of a hexadecimal digit, the initialiser list of an
  array (tokens \<open>0xhh,\<close> and line breaks) as the bytes it denotes, and a decimal literal
  as the number it denotes.
\<close>

definition hex_val :: "char \<Rightarrow> nat option" where
  "hex_val c = map_of (zip ''0123456789abcdef'' [0..<16]) c"

fun read_array :: "string \<Rightarrow> bytes option" where
  "read_array [] = Some []"
| "read_array (c # cs) =
     (if c = CHR 0x0A then read_array cs
      else (case cs of
              x # h # l # k # rest \<Rightarrow>
                if c = CHR ''0'' \<and> x = CHR ''x'' \<and> k = CHR '','' then
                  (case (hex_val h, hex_val l, read_array rest) of
                     (Some a, Some b, Some bs) \<Rightarrow> Some (of_nat (16 * a + b) # bs)
                   | _ \<Rightarrow> None)
                else None
            | _ \<Rightarrow> None))"

fun read_dec :: "nat \<Rightarrow> string \<Rightarrow> nat option" where
  "read_dec a [] = Some a"
| "read_dec a (c # cs) =
     (case hex_val c of
        Some d \<Rightarrow> if d < 10 then read_dec (10 * a + d) cs else None
      | None \<Rightarrow> None)"

text \<open>
  Two pages that agree in everything but, for a gzip-enabled page, bytes 4 to 7 of their
  data, where a gzip stream holds its modification time. The data of pages without gzip are
  the same.
\<close>

definition same_but_mtime :: "page \<Rightarrow> page \<Rightarrow> bool" where
  "same_but_mtime p1 p2 \<longleftrightarrow>
     url p1 = url p2 \<and> sym p1 = sym p2 \<and> len p1 = len p2 \<and> mime p1 = mime p2 \<and>
     gzip p1 = gzip p2 \<and> length (data p1) = length (data p2) \<and>
     take 4 (data p1) = take 4 (data p2) \<and> drop 8 (data p1) = drop 8 (data p2) \<and>
     (\<not> gzip p1 \<longrightarrow> data p1 = data p2)"

text \<open>
  The spec's reading of the opt-out marker (sections 4.1, 6 and 9): the marker \<open>.nogz\<close>
  appears at most once in a name, and where it appears it is an infix of its own, followed by
  a dot. \<open>occurrences old s\<close> counts the places of \<open>s\<close> where \<open>old\<close> starts, and
  \<open>remove_first\<close> follows the spec's words for the URL: the name with the first occurrence
  of the marker removed.
\<close>

fun occurrences :: "string \<Rightarrow> string \<Rightarrow> nat" where
  "occurrences old [] = (if old = [] then 1 else 0)"
| "occurrences old (c # cs) = (if prefix old (c # cs) then 1 else 0) + occurrences old cs"

definition marker_well_formed :: "string \<Rightarrow> bool" where
  "marker_well_formed nm \<longleftrightarrow>
     occurrences ''.nogz'' nm = 0 \<or>
     (occurrences ''.nogz'' nm = 1 \<and> occurrences ''.nogz.'' nm = 1)"

fun remove_first :: "string \<Rightarrow> string \<Rightarrow> string" where
  "remove_first old [] = []"
| "remove_first old (c # cs) =
     (if prefix old (c # cs) then drop (length old) (c # cs) else c # remove_first old cs)"

section \<open>Properties\<close>

subsection \<open>Check values of the library model\<close>

text \<open>The checksums of \<open>a\<close> and \<open>abc\<close>, as \<^verbatim>\<open>zlib.crc32\<close> gives them.\<close>

lemma crc32_check_values:
  "crc32 [0x61] = 0xE8B7BE43" "crc32 [0x61, 0x62, 0x63] = 0x352441C2"
  by code_simp+

subsection \<open>The loop of gen\<close>

lemma MIME_Some_iff:
  "MIME e = Some m \<longleftrightarrow>
     (e = ''.html'' \<and> m = ''text/html'') \<or>
     (e = ''.css'' \<and> m = ''text/css'') \<or>
     (e = ''.js'' \<and> m = ''application/javascript'')"
  by (auto simp: MIME_def)

lemma MIME_None_iff: "MIME e = None \<longleftrightarrow> e \<notin> {''.html'', ''.css'', ''.js''}"
  by (auto simp: MIME_def)

lemma make_page_Inr:
  "MIME ext = Some m \<Longrightarrow>
   make_page env f ext =
     Inr \<lparr>url = url_of (name f),
          sym = symbol (name f) @ (if is_nogz (name f) then [] else ''_GZ''),
          data = (if is_nogz (name f) then read_bytes f
                  else gzip_compress env (time_time env (name f)) (read_bytes f)),
          len = length (if is_nogz (name f) then read_bytes f
                  else gzip_compress env (time_time env (name f)) (read_bytes f)),
          mime = m,
          gzip = (\<not> is_nogz (name f))\<rparr>"
  by (simp add: make_page_def Let_def)

lemma gen_loop_pages:
  "\<exists>ps. gen_loop env fs acc = Inr (acc @ ps) \<and>
        map Inr ps = map (\<lambda>f. make_page env f (ext_of f)) (filter qualifies fs)"
proof (induction fs arbitrary: acc)
  case Nil
  show ?case by simp
next
  case (Cons f fs)
  show ?case
  proof (cases "qualifies f")
    case False
    then have "gen_loop env (f # fs) acc = gen_loop env fs acc"
      by (auto simp: qualifies_def ext_of_def Let_def)
    with Cons.IH [of acc] False show ?thesis by simp
  next
    case True
    then obtain m where m: "MIME (ext_of f) = Some m" and isf: "is_file f"
      by (auto simp: qualifies_def)
    from make_page_Inr [OF m] obtain p where p: "make_page env f (ext_of f) = Inr p"
      by blast
    have step: "gen_loop env (f # fs) acc = gen_loop env fs (acc @ [p])"
      using m isf p by (simp add: ext_of_def Let_def)
    from Cons.IH [of "acc @ [p]"] obtain ps where
      ps: "gen_loop env fs (acc @ [p]) = Inr ((acc @ [p]) @ ps)"
          "map Inr ps = map (\<lambda>f. make_page env f (ext_of f)) (filter qualifies fs)"
      by blast
    show ?thesis
      by (rule exI [of _ "p # ps"]) (use step ps p True in simp)
  qed
qed

lemma gen_pages_total:
  "\<exists>pages. gen_pages env listing = Inr pages \<and>
     map Inr pages =
       map (\<lambda>f. make_page env f (ext_of f)) (filter qualifies (sort_key name listing))"
  using gen_loop_pages [of env "sort_key name listing" "[]"] by (simp add: gen_pages_def)


lemma list_all2_map_eq:
  "map f xs = map g ys \<Longrightarrow> list_all2 (\<lambda>x y. f x = g y) xs ys"
proof (induction xs arbitrary: ys)
  case Nil
  then show ?case by simp
next
  case (Cons x xs)
  then show ?case by (cases ys) auto
qed

lemma concat_map_if_filter:
  "concat (map (\<lambda>x. if P x then [g x] else []) xs) = map g (filter P xs)"
  by (induction xs) auto

lemma qualifies_iff:
  "qualifies f \<longleftrightarrow> is_file f \<and> ext_of f \<in> {''.html'', ''.css'', ''.js''}"
  by (simp add: qualifies_def MIME_None_iff)

lemmas eval_names =
  ext_of_def lower_def lower_chr_def suffix_of_def file_entry_def dir_entry_def

lemma is_file_entries [simp]:
  "is_file (file_entry nm raw)" "\<not> is_file (dir_entry nm)"
  "name (file_entry nm raw) = nm" "name (dir_entry nm) = nm"
  "read_bytes (file_entry nm raw) = raw"
  by (simp_all add: file_entry_def dir_entry_def)

subsection \<open>Which entries get a descriptor\<close>

text \<open>
  Claim C7. A run of the loop never raises. Every entry of the directory, taken in sorted
  order, contributes exactly one page when it is a file whose lower-cased suffix is
  \<open>.html\<close>, \<open>.css\<close> or \<open>.js\<close>, and nothing otherwise (another suffix, or not a file);
  the page of such a file carries the MIME type \<open>text/html\<close>, \<open>text/css\<close> or
  \<open>application/javascript\<close> of its suffix. The suffix is compared after lower-casing, so
  \<open>App.JS\<close> counts as a \<open>js\<close> file.
\<close>

theorem gen_one_descriptor_per_asset:
  "(\<exists>pages. gen_pages env listing = Inr pages \<and>
      map Inr pages =
        concat (map (\<lambda>f. if is_file f \<and> ext_of f \<in> {''.html'', ''.css'', ''.js''}
                          then [make_page env f (ext_of f)] else [])
                    (sort_key name listing))) \<and>
   (ext_of f = ''.html'' \<longrightarrow>
      (\<exists>p. make_page env f (ext_of f) = Inr p \<and> mime p = ''text/html'')) \<and>
   (ext_of f = ''.css'' \<longrightarrow>
      (\<exists>p. make_page env f (ext_of f) = Inr p \<and> mime p = ''text/css'')) \<and>
   (ext_of f = ''.js'' \<longrightarrow>
      (\<exists>p. make_page env f (ext_of f) = Inr p \<and> mime p = ''application/javascript''))"
proof -
  have "(\<lambda>f. if is_file f \<and> ext_of f \<in> {''.html'', ''.css'', ''.js''}
              then [make_page env f (ext_of f)] else []) =
        (\<lambda>f. if qualifies f then [make_page env f (ext_of f)] else [])"
    by (simp only: qualifies_iff)
  then have pages: "\<exists>pages. gen_pages env listing = Inr pages \<and>
      map Inr pages =
        concat (map (\<lambda>f. if is_file f \<and> ext_of f \<in> {''.html'', ''.css'', ''.js''}
                          then [make_page env f (ext_of f)] else [])
                    (sort_key name listing))"
    using gen_pages_total [of env listing] by (simp only: concat_map_if_filter)
  have m: "MIME e = Some m \<Longrightarrow> \<exists>p. make_page env f e = Inr p \<and> mime p = m" for e m
    by (simp add: make_page_Inr)
  have "MIME ''.html'' = Some ''text/html''" "MIME ''.css'' = Some ''text/css''"
       "MIME ''.js'' = Some ''application/javascript''"
    by (simp_all add: MIME_def)
  with m [of "''.html''"] m [of "''.css''"] m [of "''.js''"] pages show ?thesis by simp
qed

theorem gen_one_descriptor_per_asset_witness:
  "(\<exists>pages. gen_pages (stored_env 0)
       [file_entry ''logo.png'' [1], file_entry ''index.html'' [], dir_entry ''old.js'',
        file_entry ''App.JS'' [0x61]] = Inr pages \<and>
      map Inr pages =
        [make_page (stored_env 0) (file_entry ''App.JS'' [0x61]) ''.js'',
         make_page (stored_env 0) (file_entry ''index.html'' []) ''.html'']) \<and>
   (\<exists>p. make_page (stored_env 0) (file_entry ''App.JS'' [0x61]) ''.js'' = Inr p \<and>
        mime p = ''application/javascript'')"
proof -
  let ?L = "[file_entry ''logo.png'' [1], file_entry ''index.html'' [], dir_entry ''old.js'',
             file_entry ''App.JS'' [0x61]]"
  have s: "sort_key name ?L =
      [file_entry ''App.JS'' [0x61], file_entry ''index.html'' [],
       file_entry ''logo.png'' [1], dir_entry ''old.js'']"
    by simp
  have e: "ext_of (file_entry ''App.JS'' [0x61]) = ''.js''"
          "ext_of (file_entry ''index.html'' []) = ''.html''"
          "ext_of (file_entry ''logo.png'' [1]) = ''.png''"
          "ext_of (dir_entry ''old.js'') = ''.js''"
    by (simp_all add: eval_names)
  show ?thesis
    using gen_one_descriptor_per_asset [of "stored_env 0" ?L "file_entry ''App.JS'' [0x61]"]
    unfolding s by (simp add: e)
qed


subsection \<open>str.replace\<close>

lemma replace_absent:
  "old \<noteq> [] \<Longrightarrow> \<not> sublist old s \<Longrightarrow> replace old new s = s"
proof (induction s)
  case Nil
  then show ?case by simp
next
  case (Cons c cs)
  from Cons.prems(2) have np: "\<not> prefix old (c # cs)" and ns: "\<not> sublist old cs"
    by (simp_all add: sublist_Cons_right)
  from Cons.IH [OF Cons.prems(1) ns] np Cons.prems(1) show ?case by simp
qed

lemma length_replace_le:
  "old \<noteq> [] \<Longrightarrow> length (replace old [] s) \<le> length s"
proof (induction old "[] :: string" s rule: replace.induct)
  case (1 old)
  then show ?case by simp
next
  case (2 old c cs)
  show ?case
  proof (cases "prefix old (c # cs)")
    case True
    with 2 have "length (replace old [] (drop (length old) (c # cs)))
        \<le> length (drop (length old) (c # cs))"
      by blast
    also have "\<dots> \<le> length (c # cs)" by (simp del: drop_Suc_Cons)
    finally show ?thesis using True 2(4) by (simp del: drop_Suc_Cons)
  next
    case False
    with 2 show ?thesis by simp
  qed
qed

lemma length_replace_less:
  "old \<noteq> [] \<Longrightarrow> sublist old s \<Longrightarrow> length (replace old [] s) < length s"
proof (induction s)
  case Nil
  then show ?case by simp
next
  case (Cons c cs)
  show ?case
  proof (cases "prefix old (c # cs)")
    case True
    have a: "length (replace old [] (drop (length old) (c # cs))) \<le> length (c # cs) - length old"
      using length_replace_le [OF Cons.prems(1), of "drop (length old) (c # cs)"]
      by (simp del: drop_Suc_Cons)
    have b: "0 < length old" using Cons.prems(1) by simp
    have "0 < length (c # cs)" by simp
    with a b have "length (replace old [] (drop (length old) (c # cs))) < length (c # cs)"
      by linarith
    then show ?thesis using True Cons.prems(1) by (simp del: drop_Suc_Cons)
  next
    case False
    with Cons.prems have "sublist old cs"
      by (simp add: sublist_Cons_right)
    with Cons.IH Cons.prems False show ?thesis by simp
  qed
qed


lemma prefix_Cons_append:
  "prefix (x # xs) (a @ r) \<longleftrightarrow>
     (case a of [] \<Rightarrow> prefix (x # xs) r | y # a' \<Rightarrow> x = y \<and> prefix xs (a' @ r))"
  by (cases a) auto

lemma nogz_not_straddling:
  assumes "\<not> prefix ''.nogz'' (c # a)"
  shows "\<not> prefix ''.nogz'' ((c # a) @ ''.nogz'' @ b)"
  using assms by (auto simp: prefix_Cons_append split: list.splits)

lemma replace_nogz_piece:
  "\<not> sublist ''.nogz'' a \<Longrightarrow>
   replace ''.nogz'' [] (a @ ''.nogz'' @ b) = a @ replace ''.nogz'' [] b"
proof (induction a)
  case Nil
  show ?case by simp
next
  case (Cons c a)
  from Cons.prems have np: "\<not> prefix ''.nogz'' (c # a)" and ns: "\<not> sublist ''.nogz'' a"
    by (simp_all add: sublist_Cons_right)
  have "replace ''.nogz'' [] ((c # a) @ ''.nogz'' @ b) = c # replace ''.nogz'' [] (a @ ''.nogz'' @ b)"
    using nogz_not_straddling [OF np, of b] by (simp del: Cons_prefix_Cons)
  with Cons.IH [OF ns] show ?case by simp
qed

lemma replace_nogz_join:
  "\<forall>p \<in> set ps. \<not> sublist ''.nogz'' p \<Longrightarrow>
   replace ''.nogz'' [] (join ''.nogz'' ps) = concat ps"
proof (induction ps rule: induct_list012)
  case 1
  show ?case by simp
next
  case (2 p)
  then show ?case by (simp add: replace_absent)
next
  case (3 p q ps)
  then show ?case
    using replace_nogz_piece [of p "join ''.nogz'' (q # ps)"] by simp
qed


subsection \<open>URL and gzip flag\<close>

lemma make_page_url_gzip:
  assumes "qualifies f"
  shows "\<exists>p. make_page env f (ext_of f) = Inr p \<and> url p = url_of (name f) \<and>
             gzip p = (\<not> is_nogz (name f))"
proof -
  from assms obtain m where "MIME (ext_of f) = Some m"
    by (auto simp: qualifies_def)
  from make_page_Inr [OF this, of env f] show ?thesis by simp
qed

lemma occurrences_0_iff: "old \<noteq> [] \<Longrightarrow> occurrences old s = 0 \<longleftrightarrow> \<not> sublist old s"
  by (induction s) (auto simp: sublist_Cons_right)

lemma sublist_drop_tl: "sublist old (drop n s) \<Longrightarrow> sublist old s"
  using sublist_order.order.trans [OF _ sublist_drop] .

lemma replace_at_most_once:
  "old \<noteq> [] \<Longrightarrow> occurrences old s \<le> 1 \<Longrightarrow> replace old [] s = remove_first old s"
proof (induction s)
  case Nil
  then show ?case by simp
next
  case (Cons c cs)
  show ?case
  proof (cases "prefix old (c # cs)")
    case True
    with Cons.prems have "occurrences old cs = 0" by simp
    with Cons.prems(1) have "\<not> sublist old cs"
      by (simp add: occurrences_0_iff)
    moreover have "drop (length old) (c # cs) = drop (length old - 1) cs"
      using Cons.prems(1) by (cases old) simp_all
    ultimately have "\<not> sublist old (drop (length old) (c # cs))"
      using sublist_drop_tl by metis
    with Cons.prems(1) have "replace old [] (drop (length old) (c # cs)) =
        drop (length old) (c # cs)"
      by (simp add: replace_absent)
    with True Cons.prems(1) show ?thesis
      by (simp del: drop_Suc_Cons)
  next
    case False
    with Cons.prems have "occurrences old cs \<le> 1" by simp
    with Cons.IH Cons.prems(1) False show ?thesis by simp
  qed
qed

lemma occurrences_pos_sublist: "0 < occurrences old s \<Longrightarrow> sublist old s"
  by (induction s) (auto simp: sublist_Cons_right split: if_splits)

lemma well_formed_markers_agree:
  assumes "marker_well_formed nm"
  shows "sublist ''.nogz.'' nm \<longleftrightarrow> sublist ''.nogz'' nm"
proof
  assume "sublist ''.nogz.'' nm"
  moreover have "sublist ''.nogz'' ''.nogz.''"
    by (simp add: sublist_code(3))
  ultimately show "sublist ''.nogz'' nm"
    using sublist_order.order.trans by blast
next
  assume s: "sublist ''.nogz'' nm"
  then have "occurrences ''.nogz'' nm \<noteq> 0"
    by (simp add: occurrences_0_iff)
  with assms have "occurrences ''.nogz.'' nm = 1"
    by (auto simp: marker_well_formed_def)
  then show "sublist ''.nogz.'' nm"
    using occurrences_pos_sublist [of "''.nogz.''" nm] by simp
qed

lemma well_formed_url:
  assumes "marker_well_formed nm"
  shows "replace ''.nogz'' [] nm = remove_first ''.nogz'' nm"
proof -
  from assms have "occurrences ''.nogz'' nm \<le> 1"
    by (auto simp: marker_well_formed_def)
  then show ?thesis
    by (simp add: replace_at_most_once)
qed


lemma occurrences_before_nogz:
  "\<not> sublist ''.nogz'' a \<Longrightarrow>
   occurrences ''.nogz'' (a @ ''.nogz'' @ r) = occurrences ''.nogz'' (''.nogz'' @ r)"
proof (induction a)
  case Nil
  show ?case by simp
next
  case (Cons c a)
  from Cons.prems have np: "\<not> prefix ''.nogz'' (c # a)" and ns: "\<not> sublist ''.nogz'' a"
    by (simp_all add: sublist_Cons_right)
  have "occurrences ''.nogz'' ((c # a) @ ''.nogz'' @ r) = occurrences ''.nogz'' (a @ ''.nogz'' @ r)"
    using nogz_not_straddling [OF np, of r] by (simp del: Cons_prefix_Cons)
  with Cons.IH [OF ns] show ?case by simp
qed

lemma remove_first_nogz:
  "\<not> sublist ''.nogz'' a \<Longrightarrow> remove_first ''.nogz'' (a @ ''.nogz'' @ r) = a @ r"
proof (induction a)
  case Nil
  show ?case by simp
next
  case (Cons c a)
  from Cons.prems have np: "\<not> prefix ''.nogz'' (c # a)" and ns: "\<not> sublist ''.nogz'' a"
    by (simp_all add: sublist_Cons_right)
  have "remove_first ''.nogz'' ((c # a) @ ''.nogz'' @ r) =
      c # remove_first ''.nogz'' (a @ ''.nogz'' @ r)"
    using nogz_not_straddling [OF np, of r] by (simp del: Cons_prefix_Cons)
  with Cons.IH [OF ns] show ?case by simp
qed

lemma occurrences_dotted_le: "occurrences ''.nogz.'' s \<le> occurrences ''.nogz'' s"
proof (induction s)
  case Nil
  show ?case by simp
next
  case (Cons c s)
  have "prefix ''.nogz'' (c # s)" if "prefix ''.nogz.'' (c # s)"
  proof -
    have "prefix (''.nogz'' @ ''.'') (c # s)"
      using that by (simp del: Cons_prefix_Cons)
    then show ?thesis
      by (rule append_prefixD)
  qed
  with Cons.IH show ?case
    by (auto simp del: Cons_prefix_Cons)
qed

lemma isolated_marker_well_formed:
  assumes "\<not> sublist ''.nogz'' a" and "\<not> sublist ''.nogz'' (CHR ''.'' # b)"
  shows "marker_well_formed (a @ ''.nogz'' @ CHR ''.'' # b)"
proof -
  let ?nm = "a @ ''.nogz'' @ CHR ''.'' # b"
  from assms(2) have "\<not> sublist ''.nogz'' (''nogz'' @ CHR ''.'' # b)"
    by (simp add: sublist_Cons_right)
  moreover have "occurrences ''.nogz'' (''nogz'' @ CHR ''.'' # b) = 0 \<longleftrightarrow>
      \<not> sublist ''.nogz'' (''nogz'' @ CHR ''.'' # b)"
    by (rule occurrences_0_iff) simp
  ultimately have "occurrences ''.nogz'' (''nogz'' @ CHR ''.'' # b) = 0"
    by blast
  then have "occurrences ''.nogz'' (''.nogz'' @ CHR ''.'' # b) = 1"
    by simp
  with occurrences_before_nogz [OF assms(1), of "CHR ''.'' # b"]
  have one: "occurrences ''.nogz'' ?nm = 1"
    by simp
  have "sublist ''.nogz.'' (a @ ''.nogz.'' @ b)"
    by (rule sublist_appendI)
  then have "sublist ''.nogz.'' ?nm" by simp
  moreover have "occurrences ''.nogz.'' ?nm = 0 \<longleftrightarrow> \<not> sublist ''.nogz.'' ?nm"
    by (rule occurrences_0_iff) simp
  ultimately have "occurrences ''.nogz.'' ?nm \<noteq> 0"
    by blast
  with occurrences_dotted_le [of ?nm] one have "occurrences ''.nogz.'' ?nm = 1"
    by linarith
  with one show ?thesis
    by (simp only: marker_well_formed_def) simp
qed

lemma unmarked_well_formed:
  "\<not> sublist ''.nogz'' nm \<Longrightarrow> marker_well_formed nm \<and> remove_first ''.nogz'' nm = nm"
proof -
  assume n: "\<not> sublist ''.nogz'' nm"
  then have "occurrences ''.nogz'' nm = 0"
    by (simp add: occurrences_0_iff)
  then have w: "marker_well_formed nm"
    by (simp add: marker_well_formed_def)
  from well_formed_url [OF w] replace_absent [of "''.nogz''" nm "[]"] n
  show ?thesis using w by simp
qed


text \<open>
  Claim C3. Take a file that gets a page and whose name has the marker \<open>.nogz\<close> at most
  once and then followed by a dot, as the spec requires of a name. Its URL is \<open>/\<close> for
  \<open>index.html\<close> and otherwise \<open>/\<close> followed by the name with the marker removed; its gzip
  flag is false exactly when the name carries the marker. The names meant are those without
  the marker, which are left as they are, and those of the form \<open>a.nogz.b\<close> with no marker
  in \<open>a\<close> or in \<open>.b\<close>, which become \<open>a.b\<close>. So \<open>index.html\<close> gets \<open>/\<close>,
  \<open>style.css\<close> gets \<open>/style.css\<close>, \<open>app.nogz.js\<close> gets \<open>/app.js\<close> without gzip and
  \<open>app.js\<close> gets \<open>/app.js\<close> with gzip.
\<close>

theorem url_and_gzip_flag_one_marker:
  "(qualifies f \<and> marker_well_formed (name f) \<longrightarrow>
      (\<exists>p. make_page env f (ext_of f) = Inr p \<and>
           url p = (if name f = ''index.html'' then ''/''
                    else ''/'' @ remove_first ''.nogz'' (name f)) \<and>
           (gzip p \<longleftrightarrow> \<not> sublist ''.nogz'' (name f)))) \<and>
   (\<not> sublist ''.nogz'' nm \<longrightarrow>
      marker_well_formed nm \<and> remove_first ''.nogz'' nm = nm) \<and>
   (\<not> sublist ''.nogz'' a \<and> \<not> sublist ''.nogz'' (CHR ''.'' # b) \<longrightarrow>
      marker_well_formed (a @ ''.nogz'' @ CHR ''.'' # b) \<and>
      sublist ''.nogz'' (a @ ''.nogz'' @ CHR ''.'' # b) \<and>
      remove_first ''.nogz'' (a @ ''.nogz'' @ CHR ''.'' # b) = a @ CHR ''.'' # b) \<and>
   (\<exists>p. make_page env (file_entry ''index.html'' raw) ''.html'' = Inr p \<and> url p = ''/'') \<and>
   (\<exists>p. make_page env (file_entry ''style.css'' raw) ''.css'' = Inr p \<and>
        url p = ''/style.css'') \<and>
   (\<exists>p. make_page env (file_entry ''app.nogz.js'' raw) ''.js'' = Inr p \<and>
        url p = ''/app.js'' \<and> \<not> gzip p) \<and>
   (\<exists>p. make_page env (file_entry ''app.js'' raw) ''.js'' = Inr p \<and>
        url p = ''/app.js'' \<and> gzip p)"
proof -
  have gen: "qualifies f \<and> marker_well_formed (name f) \<longrightarrow>
      (\<exists>p. make_page env f (ext_of f) = Inr p \<and>
           url p = (if name f = ''index.html'' then ''/''
                    else ''/'' @ remove_first ''.nogz'' (name f)) \<and>
           (gzip p \<longleftrightarrow> \<not> sublist ''.nogz'' (name f)))"
  proof
    assume h: "qualifies f \<and> marker_well_formed (name f)"
    then have w: "marker_well_formed (name f)" by simp
    from h make_page_url_gzip [of f env] obtain p where
      p: "make_page env f (ext_of f) = Inr p" "url p = url_of (name f)"
         "gzip p = (\<not> is_nogz (name f))"
      by blast
    from p(2) well_formed_url [OF w]
    have "url p = (if name f = ''index.html'' then ''/''
                    else ''/'' @ remove_first ''.nogz'' (name f))"
      by (simp add: url_of_def)
    moreover from p(3) well_formed_markers_agree [OF w]
    have "gzip p \<longleftrightarrow> \<not> sublist ''.nogz'' (name f)"
      by (simp add: is_nogz_def)
    ultimately show "\<exists>p. make_page env f (ext_of f) = Inr p \<and>
           url p = (if name f = ''index.html'' then ''/''
                    else ''/'' @ remove_first ''.nogz'' (name f)) \<and>
           (gzip p \<longleftrightarrow> \<not> sublist ''.nogz'' (name f))"
      using p(1) by blast
  qed
  have shape: "\<not> sublist ''.nogz'' a \<and> \<not> sublist ''.nogz'' (CHR ''.'' # b) \<longrightarrow>
      marker_well_formed (a @ ''.nogz'' @ CHR ''.'' # b) \<and>
      sublist ''.nogz'' (a @ ''.nogz'' @ CHR ''.'' # b) \<and>
      remove_first ''.nogz'' (a @ ''.nogz'' @ CHR ''.'' # b) = a @ CHR ''.'' # b"
    using isolated_marker_well_formed [of a b] remove_first_nogz [of a "CHR ''.'' # b"]
      sublist_appendI [of "''.nogz''" a "CHR ''.'' # b"]
    by blast
  have m: "MIME ''.html'' = Some ''text/html''" "MIME ''.css'' = Some ''text/css''"
       "MIME ''.js'' = Some ''application/javascript''"
    by (simp_all add: MIME_def)
  have u: "url_of ''index.html'' = ''/''" "url_of ''style.css'' = ''/style.css''"
          "url_of ''app.nogz.js'' = ''/app.js''" "url_of ''app.js'' = ''/app.js''"
    by (simp_all add: url_of_def)
  have z: "is_nogz ''app.nogz.js''" "\<not> is_nogz ''app.js''"
    by (simp_all add: is_nogz_def sublist_code(3))
  have ex: "(\<exists>p. make_page env (file_entry ''index.html'' raw) ''.html'' = Inr p \<and> url p = ''/'') \<and>
   (\<exists>p. make_page env (file_entry ''style.css'' raw) ''.css'' = Inr p \<and>
        url p = ''/style.css'') \<and>
   (\<exists>p. make_page env (file_entry ''app.nogz.js'' raw) ''.js'' = Inr p \<and>
        url p = ''/app.js'' \<and> \<not> gzip p) \<and>
   (\<exists>p. make_page env (file_entry ''app.js'' raw) ''.js'' = Inr p \<and>
        url p = ''/app.js'' \<and> gzip p)"
    by (simp add: make_page_Inr [OF m(1)] make_page_Inr [OF m(2)]
        make_page_Inr [OF m(3)] u z)
  from gen unmarked_well_formed [of nm] shape ex show ?thesis
    by (intro conjI impI) blast+
qed

theorem url_and_gzip_flag_one_marker_witness:
  "marker_well_formed ''app.nogz.js'' \<and> marker_well_formed ''app.js'' \<and>
   (\<exists>p. make_page (stored_env 0) (file_entry ''app.nogz.js'' [0x61]) ''.js'' = Inr p \<and>
        url p = ''/app.js'' \<and> \<not> gzip p) \<and>
   (\<exists>p. make_page (stored_env 0) (file_entry ''app.js'' [0x61]) ''.js'' = Inr p \<and>
        url p = ''/app.js'' \<and> gzip p)"
proof -
  let ?f = "file_entry ''app.nogz.js'' [0x61]"
  have e: "ext_of ?f = ''.js''"
    by (simp add: eval_names)
  then have q: "qualifies ?f"
    by (simp add: qualifies_iff)
  have w: "marker_well_formed ''app.nogz.js''" "marker_well_formed ''app.js''"
    by (simp_all add: marker_well_formed_def)
  have r: "remove_first ''.nogz'' ''app.nogz.js'' = ''app.js''" "sublist ''.nogz'' ''app.nogz.js''"
    by (simp_all add: sublist_code(3))
  note T = url_and_gzip_flag_one_marker [of ?f "stored_env 0" "''app.js''" "''app''" "''js''" "[0x61]"]
  from T [THEN conjunct1] q w(1) e r
  have a: "\<exists>p. make_page (stored_env 0) ?f ''.js'' = Inr p \<and> url p = ''/app.js'' \<and> \<not> gzip p"
    by simp
  from T have b: "\<exists>p. make_page (stored_env 0) (file_entry ''app.js'' [0x61]) ''.js'' = Inr p \<and>
        url p = ''/app.js'' \<and> gzip p"
    by blast
  from w a b show ?thesis by blast
qed


subsection \<open>Two marker strings\<close>

text \<open>
  Claim C9. For a file that gets a page, gzip is off exactly when the name contains
  \<open>.nogz.\<close>, while the URL (of any file but \<open>index.html\<close>) is the name with \<open>.nogz\<close>
  replaced by nothing. That replacement takes out every occurrence: a name made of pieces
  free of \<open>.nogz\<close>, joined by \<open>.nogz\<close>, gets the URL made of the pieces alone. So a name
  that contains \<open>.nogz\<close> and nowhere \<open>.nogz.\<close> is compressed although its URL lost the
  substring and is shorter than \<open>/\<close> followed by the name.
\<close>

theorem nogz_markers_differ:
  "qualifies f \<longrightarrow>
     (\<exists>p. make_page env f (ext_of f) = Inr p \<and>
          (gzip p \<longleftrightarrow> \<not> sublist ''.nogz.'' (name f)) \<and>
          (name f \<noteq> ''index.html'' \<longrightarrow> url p = ''/'' @ replace ''.nogz'' [] (name f)) \<and>
          (name f \<noteq> ''index.html'' \<and> name f = join ''.nogz'' ps \<and>
           (\<forall>piece \<in> set ps. \<not> sublist ''.nogz'' piece) \<longrightarrow>
             url p = ''/'' @ concat ps) \<and>
          (sublist ''.nogz'' (name f) \<and> \<not> sublist ''.nogz.'' (name f) \<longrightarrow>
             gzip p \<and> url p = ''/'' @ replace ''.nogz'' [] (name f) \<and>
             length (url p) < length (''/'' @ name f)))"
proof
  assume "qualifies f"
  from make_page_url_gzip [OF this, of env] obtain p where
    p: "make_page env f (ext_of f) = Inr p" "url p = url_of (name f)"
       "gzip p = (\<not> is_nogz (name f))"
    by blast
  have g: "gzip p \<longleftrightarrow> \<not> sublist ''.nogz.'' (name f)"
    using p(3) by (simp add: is_nogz_def)
  have u: "url p = ''/'' @ replace ''.nogz'' [] (name f)" if "name f \<noteq> ''index.html''"
    using p(2) that by (simp add: url_of_def)
  have j: "url p = ''/'' @ concat ps"
    if "name f \<noteq> ''index.html''" "name f = join ''.nogz'' ps"
       "\<forall>piece \<in> set ps. \<not> sublist ''.nogz'' piece"
    using u [OF that(1)] replace_nogz_join [OF that(3)] that(2) by simp
  have c: "gzip p \<and> url p = ''/'' @ replace ''.nogz'' [] (name f) \<and>
           length (url p) < length (''/'' @ name f)"
    if s: "sublist ''.nogz'' (name f)" and n: "\<not> sublist ''.nogz.'' (name f)"
  proof -
    have "\<not> sublist ''.nogz'' ''index.html''"
      by (simp add: sublist_code(3))
    with s have ne: "name f \<noteq> ''index.html''" by auto
    have "length (replace ''.nogz'' [] (name f)) < length (name f)"
      using length_replace_less [of "''.nogz''" "name f"] s by simp
    with u [OF ne] g n show ?thesis by simp
  qed
  from p(1) g u j c
  show "\<exists>p. make_page env f (ext_of f) = Inr p \<and>
          (gzip p \<longleftrightarrow> \<not> sublist ''.nogz.'' (name f)) \<and>
          (name f \<noteq> ''index.html'' \<longrightarrow> url p = ''/'' @ replace ''.nogz'' [] (name f)) \<and>
          (name f \<noteq> ''index.html'' \<and> name f = join ''.nogz'' ps \<and>
           (\<forall>piece \<in> set ps. \<not> sublist ''.nogz'' piece) \<longrightarrow>
             url p = ''/'' @ concat ps) \<and>
          (sublist ''.nogz'' (name f) \<and> \<not> sublist ''.nogz.'' (name f) \<longrightarrow>
             gzip p \<and> url p = ''/'' @ replace ''.nogz'' [] (name f) \<and>
             length (url p) < length (''/'' @ name f))"
    by (intro exI [of _ p] conjI impI; (elim conjE)?) simp_all
qed

theorem nogz_markers_differ_witness:
  "\<exists>p. make_page (stored_env 0) (file_entry ''a.nogzip.nogz-b.js'' [0x61]) ''.js'' = Inr p \<and>
       gzip p \<and> url p = ''/aip-b.js''"
proof -
  let ?f = "file_entry ''a.nogzip.nogz-b.js'' [0x61]"
  have e: "ext_of ?f = ''.js''"
    by (simp add: eval_names)
  then have q: "qualifies ?f"
    by (simp add: qualifies_iff)
  have s: "sublist ''.nogz'' ''a.nogzip.nogz-b.js''" "\<not> sublist ''.nogz.'' ''a.nogzip.nogz-b.js''"
    "\<forall>piece \<in> set [''a'', ''ip'', ''-b.js'']. \<not> sublist ''.nogz'' piece"
    by (simp_all add: sublist_code(3))
  show ?thesis
    using nogz_markers_differ [of ?f "stored_env 0" "[''a'', ''ip'', ''-b.js'']"] q e s
    by simp blast
qed


subsection \<open>What findPage returns\<close>

lemma strchr_None: "strchr s c = None \<longleftrightarrow> c \<notin> set s"
  by (induction s) auto

lemma strchr_Some: "strchr s c = Some n \<Longrightarrow> c \<in> set s \<and> n = length (takeWhile (\<lambda>x. x \<noteq> c) s)"
  by (induction s arbitrary: n) (auto split: if_splits)

lemma strchr_eq:
  "strchr s c = (if c \<in> set s then Some (length (takeWhile (\<lambda>x. x \<noteq> c) s)) else None)"
proof (cases "strchr s c")
  case None
  then show ?thesis by (simp add: strchr_None)
next
  case (Some n)
  with strchr_Some [OF Some] show ?thesis by simp
qed

lemma memcmp_exact: "length a = length b \<and> memcmp_eq a b (length a) \<longleftrightarrow> a = b"
  by (auto simp: memcmp_eq_def)

lemma memcmp_base:
  "length a = length (takeWhile P b) \<and> memcmp_eq a b (length (takeWhile P b)) \<longleftrightarrow>
   a = takeWhile P b"
proof -
  have t: "take (length (takeWhile P b)) b = takeWhile P b"
    using takeWhile_eq_take [of P b] by simp
  show ?thesis
    by (auto simp: memcmp_eq_def t)
qed

lemma findPage_Cons:
  "findPage (p # ps) req =
     (if path p = req \<or>
         (CHR ''.'' \<in> set (path p) \<and> takeWhile (\<lambda>c. c \<noteq> CHR ''.'') (path p) = req)
      then Some p else findPage ps req)"
proof -
  have a: "(length req = length (path p) \<and> memcmp_eq req (path p) (length req)) = (path p = req)"
    using memcmp_exact [of req "path p"] by auto
  have b: "(length req = length (takeWhile (\<lambda>c. c \<noteq> CHR ''.'') (path p)) \<and>
            memcmp_eq req (path p) (length (takeWhile (\<lambda>c. c \<noteq> CHR ''.'') (path p)))) =
           (takeWhile (\<lambda>c. c \<noteq> CHR ''.'') (path p) = req)"
    using memcmp_base [of req "\<lambda>c. c \<noteq> CHR ''.''" "path p"] by auto
  have step: "findPage (p # ps) req =
      (if path p = req then Some p
       else (case strchr (path p) CHR ''.'' of
               None \<Rightarrow> findPage ps req
             | Some baseLen \<Rightarrow>
                 if length req = baseLen \<and> memcmp_eq req (path p) baseLen then Some p
                 else findPage ps req))"
    by (simp only: findPage.simps Let_def a)
  show ?thesis
  proof (cases "CHR ''.'' \<in> set (path p)")
    case True
    then have "strchr (path p) CHR ''.'' =
        Some (length (takeWhile (\<lambda>c. c \<noteq> CHR ''.'') (path p)))"
      by (simp add: strchr_eq)
    then have "findPage (p # ps) req =
        (if path p = req then Some p
         else if takeWhile (\<lambda>c. c \<noteq> CHR ''.'') (path p) = req then Some p
         else findPage ps req)"
      by (simp only: step option.case b)
    with True show ?thesis by simp
  next
    case False
    then have "strchr (path p) CHR ''.'' = None"
      by (simp add: strchr_None)
    then have "findPage (p # ps) req = (if path p = req then Some p else findPage ps req)"
      by (simp only: step option.case)
    with False show ?thesis by simp
  qed
qed

lemma findPage_find:
  "findPage pages req =
     find (\<lambda>p. path p = req \<or>
               (CHR ''.'' \<in> set (path p) \<and> takeWhile (\<lambda>c. c \<noteq> CHR ''.'') (path p) = req))
          pages"
  by (induction pages) (simp_all add: findPage_Cons del: findPage.simps(2))


text \<open>
  Claim C2. For every table and every request path, \<open>findPage\<close> returns the first row, in
  table order, whose path equals the request or which has a dot and whose part before the
  first dot equals the request; it returns nothing when there is no such row. With a row for
  \<open>/foo.css\<close> before a row for \<open>/foo.js\<close> the request \<open>/foo\<close> gets the \<open>/foo.css\<close> row;
  that is the order in which a run over the files \<open>foo.js\<close> and \<open>foo.css\<close> emits
  them.
\<close>

theorem findPage_first_match:
  "findPage pages req =
     find (\<lambda>p. path p = req \<or>
               (CHR ''.'' \<in> set (path p) \<and> takeWhile (\<lambda>c. c \<noteq> CHR ''.'') (path p) = req))
          pages \<and>
   findPage [a\<lparr>path := ''/foo.css''\<rparr>, b\<lparr>path := ''/foo.js''\<rparr>] ''/foo'' =
     Some (a\<lparr>path := ''/foo.css''\<rparr>) \<and>
   (\<exists>pc pj. gen_pages env [file_entry ''foo.js'' r1, file_entry ''foo.css'' r2] = Inr [pc, pj] \<and>
      url pc = ''/foo.css'' \<and> url pj = ''/foo.js'' \<and>
      findPage (map static_Page [pc, pj]) ''/foo'' = Some (static_Page pc))"
proof -
  have ex: "findPage [a\<lparr>path := ''/foo.css''\<rparr>, b\<lparr>path := ''/foo.js''\<rparr>] ''/foo'' =
      Some (a\<lparr>path := ''/foo.css''\<rparr>)"
    by (simp add: findPage_find)
  let ?js = "file_entry ''foo.js'' r1" and ?css = "file_entry ''foo.css'' r2"
  have s: "sort_key name [?js, ?css] = [?css, ?js]"
    by simp
  have e: "ext_of ?js = ''.js''" "ext_of ?css = ''.css''"
    by (simp_all add: eval_names)
  then have q: "qualifies ?js" "qualifies ?css"
    by (simp_all add: qualifies_iff)
  from make_page_url_gzip [OF q(1), of env] make_page_url_gzip [OF q(2), of env]
  obtain pj pc where
    pj: "make_page env ?js (ext_of ?js) = Inr pj" "url pj = url_of ''foo.js''" and
    pc: "make_page env ?css (ext_of ?css) = Inr pc" "url pc = url_of ''foo.css''"
    by auto
  from gen_pages_total [of env "[?js, ?css]"] obtain gp where
    gp: "gen_pages env [?js, ?css] = Inr gp"
        "map Inr gp = map (\<lambda>f. make_page env f (ext_of f)) (filter qualifies [?css, ?js])"
    unfolding s by blast
  from gp(2) q pj(1) pc(1) have "map Inr gp = [Inr pc, Inr pj :: error + page]"
    by simp
  then have "gp = [pc, pj]"
    by (auto simp: map_eq_Cons_conv)
  moreover have "url pc = ''/foo.css''" "url pj = ''/foo.js''"
    using pc(2) pj(2) by (simp_all add: url_of_def)
  moreover from this
  have "findPage (map static_Page [pc, pj]) ''/foo'' = Some (static_Page pc)"
    by (simp add: findPage_find static_Page_def)
  ultimately show ?thesis
    using gp(1) ex findPage_find [of pages req] by blast
qed

theorem findPage_first_match_witness:
  "findPage
     [\<lparr>path = ''/'', data_sym = ''INDEX_HTML_GZ'', len_sym = ''INDEX_HTML_GZ_LEN'',
       mime_type = ''text/html'', gzipped = True\<rparr>,
      \<lparr>path = ''/style.css'', data_sym = ''STYLE_CSS_GZ'', len_sym = ''STYLE_CSS_GZ_LEN'',
       mime_type = ''text/css'', gzipped = True\<rparr>]
     ''/style'' =
   Some \<lparr>path = ''/style.css'', data_sym = ''STYLE_CSS_GZ'', len_sym = ''STYLE_CSS_GZ_LEN'',
       mime_type = ''text/css'', gzipped = True\<rparr>"
  using findPage_first_match
    [of "[\<lparr>path = ''/'', data_sym = ''INDEX_HTML_GZ'', len_sym = ''INDEX_HTML_GZ_LEN'',
           mime_type = ''text/html'', gzipped = True\<rparr>,
          \<lparr>path = ''/style.css'', data_sym = ''STYLE_CSS_GZ'', len_sym = ''STYLE_CSS_GZ_LEN'',
           mime_type = ''text/css'', gzipped = True\<rparr>]" "''/style''"]
  by simp

text \<open>
  Claim C5. \<open>findPage\<close> returns \<open>nullptr\<close> exactly when no row's path equals the request
  and no row with a dot has the request as its part before the first dot. The function
  always returns a value (it is total, and raises nothing); it only reads the table, which
  is a \<^verbatim>\<open>static const\<close> array, and its result is a row or nothing.
\<close>

theorem findPage_miss:
  "findPage pages req = None \<longleftrightarrow>
     (\<forall>p \<in> set pages.
        path p \<noteq> req \<and>
        \<not> (CHR ''.'' \<in> set (path p) \<and> takeWhile (\<lambda>c. c \<noteq> CHR ''.'') (path p) = req))"
  by (auto simp add: findPage_find find_None_iff)

theorem findPage_miss_witness:
  "findPage
     [\<lparr>path = ''/'', data_sym = ''INDEX_HTML_GZ'', len_sym = ''INDEX_HTML_GZ_LEN'',
       mime_type = ''text/html'', gzipped = True\<rparr>,
      \<lparr>path = ''/style.css'', data_sym = ''STYLE_CSS_GZ'', len_sym = ''STYLE_CSS_GZ_LEN'',
       mime_type = ''text/css'', gzipped = True\<rparr>]
     ''/missing'' = None"
  using findPage_miss
    [of "[\<lparr>path = ''/'', data_sym = ''INDEX_HTML_GZ'', len_sym = ''INDEX_HTML_GZ_LEN'',
           mime_type = ''text/html'', gzipped = True\<rparr>,
          \<lparr>path = ''/style.css'', data_sym = ''STYLE_CSS_GZ'', len_sym = ''STYLE_CSS_GZ_LEN'',
           mime_type = ''text/css'', gzipped = True\<rparr>]" "''/missing''"]
  by simp


subsection \<open>No assets: nothing is generated\<close>

text \<open>
  Claim C8. When \<^verbatim>\<open>src/web/build\<close> does not exist or has no entry, the script calls
  nothing of \<open>gen\<close>: every file on disk, the three generated ones included, is as before,
  the three warning lines are printed, and the script ends by \<^verbatim>\<open>exit(0)\<close>, which is not
  an error status.
\<close>

theorem script_skips_without_assets:
  "web_dir w = None \<or> web_dir w = Some [] \<Longrightarrow>
   script env w = (w\<lparr>stdout := stdout w @ skip_warning\<rparr>, SystemExit 0) \<and>
   files (fst (script env w)) = files w \<and>
   web_dir (fst (script env w)) = web_dir w \<and>
   hd skip_warning = ''Warning: No minified files found in src/web/build/''"
  by (auto simp: script_def skip_warning_def)

theorem script_skips_without_assets_witness:
  "script (stored_env 0)
     \<lparr>web_dir = Some [],
      files = [PAGES_H \<mapsto> ''old header'', PAGES_CPP \<mapsto> ''old data'', ROUTER_CPP \<mapsto> ''old table''],
      stdout = []\<rparr> =
   (\<lparr>web_dir = Some [],
     files = [PAGES_H \<mapsto> ''old header'', PAGES_CPP \<mapsto> ''old data'', ROUTER_CPP \<mapsto> ''old table''],
     stdout = skip_warning\<rparr>, SystemExit 0)"
  using script_skips_without_assets
    [of "\<lparr>web_dir = Some [],
      files = [PAGES_H \<mapsto> ''old header'', PAGES_CPP \<mapsto> ''old data'', ROUTER_CPP \<mapsto> ''old table''],
      stdout = []\<rparr>" "stored_env 0"]
  by simp

subsection \<open>Order of the table\<close>

lemma sorted_sources:
  "sorted (map name (filter qualifies (sort_key name listing)))"
  by (rule sorted_filter) simp

lemma list_all2_map_eq_conv:
  "list_all2 R xs ys \<Longrightarrow> (\<And>x y. R x y \<Longrightarrow> g x = h y) \<Longrightarrow> map g xs = map h ys"
  by (induction rule: list_all2_induct) auto

lemma gen_pages_paired:
  "\<exists>pages. gen_pages env listing = Inr pages \<and>
     list_all2 (\<lambda>f p. qualifies f \<and> make_page env f (ext_of f) = Inr p)
       (filter qualifies (sort_key name listing)) pages"
proof -
  from gen_pages_total [of env listing] obtain pages where
    pages: "gen_pages env listing = Inr pages"
      "map (\<lambda>f. make_page env f (ext_of f)) (filter qualifies (sort_key name listing)) =
       map Inr pages"
    by auto
  from list_all2_map_eq [OF pages(2)]
  have "list_all2 (\<lambda>f p. make_page env f (ext_of f) = Inr p)
      (filter qualifies (sort_key name listing)) pages" .
  then have "list_all2 (\<lambda>f p. qualifies f \<and> make_page env f (ext_of f) = Inr p)
      (filter qualifies (sort_key name listing)) pages"
    by (rule list.rel_mono_strong) simp
  with pages(1) show ?thesis by blast
qed

lemma router_row_of_file:
  assumes "qualifies f" and "make_page env f (ext_of f) = Inr p"
  shows "router_row p =
     ''  { '' @ DQ @ url_of (name f) @ DQ @ '', '' @
     symbol (name f) @ (if is_nogz (name f) then [] else ''_GZ'') @ '', '' @
     symbol (name f) @ (if is_nogz (name f) then [] else ''_GZ'') @ ''_LEN, '' @
     DQ @ (if ext_of f = ''.html'' then ''text/html''
           else if ext_of f = ''.css'' then ''text/css'' else ''application/javascript'') @ DQ @
     '', '' @ (if is_nogz (name f) then ''false'' else ''true'') @ '' },'' @ NL"
    and "url p = url_of (name f)"
proof -
  from assms(1) obtain m where m: "MIME (ext_of f) = Some m"
    by (auto simp: qualifies_def)
  then have mm: "m = (if ext_of f = ''.html'' then ''text/html''
           else if ext_of f = ''.css'' then ''text/css'' else ''application/javascript'')"
    by (auto simp: MIME_Some_iff)
  from make_page_Inr [OF m, of env f] assms(2)
  have p: "url p = url_of (name f)"
    "sym p = symbol (name f) @ (if is_nogz (name f) then [] else ''_GZ'')"
    "mime p = m" "gzip p = (\<not> is_nogz (name f))"
    by auto
  show "url p = url_of (name f)" by (rule p(1))
  show "router_row p =
     ''  { '' @ DQ @ url_of (name f) @ DQ @ '', '' @
     symbol (name f) @ (if is_nogz (name f) then [] else ''_GZ'') @ '', '' @
     symbol (name f) @ (if is_nogz (name f) then [] else ''_GZ'') @ ''_LEN, '' @
     DQ @ (if ext_of f = ''.html'' then ''text/html''
           else if ext_of f = ''.css'' then ''text/css'' else ''application/javascript'') @ DQ @
     '', '' @ (if is_nogz (name f) then ''false'' else ''true'') @ '' },'' @ NL"
    unfolding router_row_def p mm [symmetric] by (simp add: str_bool_lower_def)
qed

text \<open>
  Claim C6. A run over an existing directory does not fail. Its pages pair off, in order,
  with the qualifying entries of the directory taken in ascending order of their file names
  (the qualifying entries of the listing, sorted by name). The table written to
  \<^verbatim>\<open>page_router.cpp\<close> has exactly one row for each of these files, in that order, between
  the fixed head and tail of the file: the row of a file holds its URL, its symbol, the
  length constant of that symbol, its MIME type and its gzip flag. So the paths of the
  compiled table are the URLs of the qualifying files in ascending order of the file names.
\<close>

theorem table_rows_in_filename_order:
  "web_dir w = Some listing \<Longrightarrow>
   \<exists>pages w'.
     gen env w = Inr w' \<and>
     gen_pages env listing = Inr pages \<and>
     sorted (map name (filter qualifies (sort_key name listing))) \<and>
     mset (filter qualifies (sort_key name listing)) = mset (filter qualifies listing) \<and>
     list_all2 (\<lambda>f p. make_page env f (ext_of f) = Inr p)
       (filter qualifies (sort_key name listing)) pages \<and>
     map url pages = map (\<lambda>f. url_of (name f)) (filter qualifies (sort_key name listing)) \<and>
     map path (map static_Page pages) =
       map (\<lambda>f. url_of (name f)) (filter qualifies (sort_key name listing)) \<and>
     files w' ROUTER_CPP = Some
       (''#include <string.h>'' @ NL @
        ''#include '' @ DQ @ ''page_router.h'' @ DQ @ NL @
        ''#include '' @ DQ @ ''web_pages.h'' @ DQ @ NL @ NL @
        ''static const Page pages[] = {'' @ NL @
        concat (map (\<lambda>f.
           ''  { '' @ DQ @ url_of (name f) @ DQ @ '', '' @
           symbol (name f) @ (if is_nogz (name f) then [] else ''_GZ'') @ '', '' @
           symbol (name f) @ (if is_nogz (name f) then [] else ''_GZ'') @ ''_LEN, '' @
           DQ @ (if ext_of f = ''.html'' then ''text/html''
                 else if ext_of f = ''.css'' then ''text/css''
                 else ''application/javascript'') @ DQ @
           '', '' @ (if is_nogz (name f) then ''false'' else ''true'') @ '' },'' @ NL)
          (filter qualifies (sort_key name listing))) @
        ''};'' @ NL @ NL @
        findPage_text)"
proof -
  assume w: "web_dir w = Some listing"
  let ?fs = "filter qualifies (sort_key name listing)"
  from gen_pages_paired [of env listing] obtain pages where
    pages: "gen_pages env listing = Inr pages"
      "list_all2 (\<lambda>f p. qualifies f \<and> make_page env f (ext_of f) = Inr p) ?fs pages"
    by blast
  have ne: "PAGES_H \<noteq> ROUTER_CPP" "PAGES_CPP \<noteq> ROUTER_CPP"
    by (simp_all add: PAGES_H_def PAGES_CPP_def ROUTER_CPP_def)
  have g: "\<exists>w'. gen env w = Inr w' \<and> files w' ROUTER_CPP = Some (page_router_cpp pages)"
    using w pages(1) ne by (simp add: gen_def)
  have l: "list_all2 (\<lambda>f p. make_page env f (ext_of f) = Inr p) ?fs pages"
    using pages(2) by (rule list_all2_mono) simp
  have u: "map (\<lambda>f. url_of (name f)) ?fs = map url pages"
    using pages(2) by (rule list_all2_map_eq_conv) (use router_row_of_file(2) in auto)
  then have pth: "map path (map static_Page pages) = map (\<lambda>f. url_of (name f)) ?fs"
    by (simp add: static_Page_def comp_def)
  have r: "map (\<lambda>f.
           ''  { '' @ DQ @ url_of (name f) @ DQ @ '', '' @
           symbol (name f) @ (if is_nogz (name f) then [] else ''_GZ'') @ '', '' @
           symbol (name f) @ (if is_nogz (name f) then [] else ''_GZ'') @ ''_LEN, '' @
           DQ @ (if ext_of f = ''.html'' then ''text/html''
                 else if ext_of f = ''.css'' then ''text/css''
                 else ''application/javascript'') @ DQ @
           '', '' @ (if is_nogz (name f) then ''false'' else ''true'') @ '' },'' @ NL) ?fs =
        map router_row pages"
    using pages(2)
  proof (rule list_all2_map_eq_conv)
    fix f p
    assume "qualifies f \<and> make_page env f (ext_of f) = Inr p"
    then show "''  { '' @ DQ @ url_of (name f) @ DQ @ '', '' @
           symbol (name f) @ (if is_nogz (name f) then [] else ''_GZ'') @ '', '' @
           symbol (name f) @ (if is_nogz (name f) then [] else ''_GZ'') @ ''_LEN, '' @
           DQ @ (if ext_of f = ''.html'' then ''text/html''
                 else if ext_of f = ''.css'' then ''text/css''
                 else ''application/javascript'') @ DQ @
           '', '' @ (if is_nogz (name f) then ''false'' else ''true'') @ '' },'' @ NL =
           router_row p"
      using router_row_of_file(1) [of f env p] by simp
  qed
  from g obtain w' where gw: "gen env w = Inr w'"
    "files w' ROUTER_CPP = Some (page_router_cpp pages)"
    by blast
  have content: "files w' ROUTER_CPP = Some
       (''#include <string.h>'' @ NL @
        ''#include '' @ DQ @ ''page_router.h'' @ DQ @ NL @
        ''#include '' @ DQ @ ''web_pages.h'' @ DQ @ NL @ NL @
        ''static const Page pages[] = {'' @ NL @
        concat (map (\<lambda>f.
           ''  { '' @ DQ @ url_of (name f) @ DQ @ '', '' @
           symbol (name f) @ (if is_nogz (name f) then [] else ''_GZ'') @ '', '' @
           symbol (name f) @ (if is_nogz (name f) then [] else ''_GZ'') @ ''_LEN, '' @
           DQ @ (if ext_of f = ''.html'' then ''text/html''
                 else if ext_of f = ''.css'' then ''text/css''
                 else ''application/javascript'') @ DQ @
           '', '' @ (if is_nogz (name f) then ''false'' else ''true'') @ '' },'' @ NL)
          ?fs) @
        ''};'' @ NL @ NL @
        findPage_text)"
    unfolding gw(2) r page_router_cpp_def by simp
  have ms: "mset ?fs = mset (filter qualifies listing)"
    by simp
  from gw(1) pages(1) sorted_sources [of listing] ms l u [symmetric] pth content
  show ?thesis
    by (intro exI [of _ pages] exI [of _ w'] conjI)
qed


theorem table_rows_in_filename_order_witness:
  "\<exists>pages w'.
     gen (stored_env 0)
       \<lparr>web_dir = Some [file_entry ''b.js'' [1], file_entry ''logo.png'' [3],
                        file_entry ''a.nogz.css'' [2]],
        files = Map.empty, stdout = []\<rparr> = Inr w' \<and>
     map url pages = [''/a.css'', ''/b.js''] \<and>
     map path (map static_Page pages) = [''/a.css'', ''/b.js''] \<and>
     files w' ROUTER_CPP = Some
       (''#include <string.h>'' @ NL @
        ''#include '' @ DQ @ ''page_router.h'' @ DQ @ NL @
        ''#include '' @ DQ @ ''web_pages.h'' @ DQ @ NL @ NL @
        ''static const Page pages[] = {'' @ NL @
        ''  { '' @ DQ @ ''/a.css'' @ DQ @ '', A_NOGZ_CSS, A_NOGZ_CSS_LEN, '' @
          DQ @ ''text/css'' @ DQ @ '', false },'' @ NL @
        ''  { '' @ DQ @ ''/b.js'' @ DQ @ '', B_JS_GZ, B_JS_GZ_LEN, '' @
          DQ @ ''application/javascript'' @ DQ @ '', true },'' @ NL @
        ''};'' @ NL @ NL @
        findPage_text)"
proof -
  let ?b = "file_entry ''b.js'' [1]" and ?l = "file_entry ''logo.png'' [3]"
    and ?a = "file_entry ''a.nogz.css'' [2]"
  let ?L = "[?b, ?l, ?a]"
  have s: "sort_key name ?L = [?a, ?b, ?l]"
    by simp
  have e: "ext_of ?b = ''.js''" "ext_of ?a = ''.css''" "ext_of ?l = ''.png''"
    by (simp_all add: eval_names)
  then have q: "qualifies ?b" "qualifies ?a" "\<not> qualifies ?l"
    by (simp_all add: qualifies_iff)
  have f: "filter qualifies [?a, ?b, ?l] = [?a, ?b]"
    using q by simp
  have y: "symbol ''b.js'' = ''B_JS''" "symbol ''a.nogz.css'' = ''A_NOGZ_CSS''"
    by (simp_all add: symbol_def upper_def upper_chr_def)
  have u: "url_of ''b.js'' = ''/b.js''" "url_of ''a.nogz.css'' = ''/a.css''"
    "\<not> is_nogz ''b.js''" "is_nogz ''a.nogz.css''"
    by (simp_all add: url_of_def is_nogz_def sublist_code(3))
  from table_rows_in_filename_order
      [of "\<lparr>web_dir = Some ?L, files = Map.empty, stdout = []\<rparr>" ?L "stored_env 0"]
  show ?thesis
    unfolding s f by (simp add: e y u) (elim exE conjE, intro exI conjI, assumption+)
qed


subsection \<open>Emitted arrays and lengths\<close>

lemma hex_val_digit_all: "\<forall>k \<in> set [0..<16]. hex_val (digit_chr k) = Some k"
  by code_simp

lemma hex_val_digit: "k < 16 \<Longrightarrow> hex_val (digit_chr k) = Some k"
  using hex_val_digit_all by simp

lemma byte_of_nibbles: "(of_nat (16 * (unat b div 16) + unat b mod 16) :: byte) = b"
  by simp

lemma unat_byte_div: "unat (b :: byte) div 16 < 16"
proof -
  have "unat b < 2 ^ LENGTH(8)" by (rule unsigned_less)
  then show ?thesis by simp
qed

lemma read_array_hex_dump: "read_array (hex_dump i d @ NL) = Some d"
proof (induction d arbitrary: i)
  case Nil
  show ?case by (simp add: NL_def)
next
  case (Cons b d)
  have "read_array (hex_dump (Suc i) d @ NL) = Some d"
    by (rule Cons.IH)
  then show ?case
    by (simp add: hex02_def hex_val_digit unat_byte_div NL_def)
qed

lemma read_dec_append:
  "read_dec a (s @ t) = (case read_dec a s of Some b \<Rightarrow> read_dec b t | None \<Rightarrow> None)"
  by (induction s arbitrary: a) (auto split: option.splits)

lemma read_dec_str_nat: "read_dec 0 (str_nat n) = Some n"
proof (induction n rule: str_nat.induct)
  case (1 n)
  show ?case
  proof (cases "n < 10")
    case True
    then show ?thesis
      by (subst str_nat.simps) (simp add: hex_val_digit)
  next
    case False
    with 1 have "read_dec 0 (str_nat (n div 10)) = Some (n div 10)" by simp
    with False show ?thesis
      by (subst str_nat.simps) (simp add: read_dec_append hex_val_digit)
  qed
qed


lemma gen_pages_sources:
  assumes "gen_pages env listing = Inr pages" and "p \<in> set pages"
  shows "\<exists>f \<in> set listing. qualifies f \<and> make_page env f (ext_of f) = Inr p"
proof -
  from gen_pages_total [of env listing] assms(1)
  have "map Inr pages =
      map (\<lambda>f. make_page env f (ext_of f)) (filter qualifies (sort_key name listing))"
    by simp
  moreover from assms(2) have "Inr p \<in> set (map Inr pages :: (error + page) list)"
    by simp
  ultimately have "Inr p \<in> (\<lambda>f. make_page env f (ext_of f)) `
      set (filter qualifies (sort_key name listing))"
    by simp
  then show ?thesis by auto
qed

lemma make_page_data:
  assumes "qualifies f" and "make_page env f (ext_of f) = Inr p"
  shows "len p = length (data p)"
    and "gzip p = (\<not> is_nogz (name f))"
    and "data p = (if is_nogz (name f) then read_bytes f
                   else gzip_compress env (time_time env (name f)) (read_bytes f))"
proof -
  from assms(1) obtain m where "MIME (ext_of f) = Some m"
    by (auto simp: qualifies_def)
  from make_page_Inr [OF this, of env f] assms(2)
  show "len p = length (data p)" "gzip p = (\<not> is_nogz (name f))"
    "data p = (if is_nogz (name f) then read_bytes f
               else gzip_compress env (time_time env (name f)) (read_bytes f))"
    by auto
qed

lemma page_source:
  assumes "gen_pages env listing = Inr pages" and "p \<in> set pages"
  shows "len p = length (data p) \<and>
     read_array (hex_dump 0 (data p) @ NL) = Some (data p) \<and>
     read_dec 0 (str_nat (length (data p))) = Some (length (data p)) \<and>
     data_sym (static_Page p) = sym p \<and>
     len_sym (static_Page p) = sym p @ ''_LEN'' \<and>
     (\<exists>f \<in> set listing.
        qualifies f \<and> make_page env f (ext_of f) = Inr p \<and>
        (gzip p \<longleftrightarrow> \<not> is_nogz (name f)) \<and>
        (gzip p \<longrightarrow>
           data p = gzip_compress env (time_time env (name f)) (read_bytes f) \<and>
           len p = length (gzip_compress env (time_time env (name f)) (read_bytes f))) \<and>
        (\<not> gzip p \<longrightarrow> data p = read_bytes f \<and> len p = length (read_bytes f)))"
proof -
  from gen_pages_sources [OF assms] obtain f where
    f: "f \<in> set listing" "qualifies f" "make_page env f (ext_of f) = Inr p"
    by blast
  note d = make_page_data [OF f(2) f(3)]
  have src: "\<exists>f \<in> set listing.
      qualifies f \<and> make_page env f (ext_of f) = Inr p \<and>
      (gzip p \<longleftrightarrow> \<not> is_nogz (name f)) \<and>
      (gzip p \<longrightarrow>
         data p = gzip_compress env (time_time env (name f)) (read_bytes f) \<and>
         len p = length (gzip_compress env (time_time env (name f)) (read_bytes f))) \<and>
      (\<not> gzip p \<longrightarrow> data p = read_bytes f \<and> len p = length (read_bytes f))"
    using f d by (intro bexI [of _ f]) auto
  have e: "data_sym (static_Page p) = sym p" "len_sym (static_Page p) = sym p @ ''_LEN''"
    by (simp_all add: static_Page_def)
  have r1: "read_array (hex_dump 0 (data p) @ NL) = Some (data p)"
    by (rule read_array_hex_dump)
  have r2: "read_dec 0 (str_nat (length (data p))) = Some (length (data p))"
    by (rule read_dec_str_nat)
  from d(1) r1 r2 e src show ?thesis
    by (intro conjI)
qed

text \<open>
  Claim C10. A run over an existing directory does not fail and writes the three files.
  \<^verbatim>\<open>web_pages.cpp\<close> holds, after its two include lines, for each page in table order the
  array \<^verbatim>\<open>SYM\<close> with the hexadecimal dump of the page's data, followed by the constant
  \<^verbatim>\<open>SYM_LEN\<close> with the decimal literal of the number of bytes of that data.
  \<^verbatim>\<open>page_router.cpp\<close> holds one row per page, in the same order, that names the array
  \<^verbatim>\<open>SYM\<close> and that same constant \<^verbatim>\<open>SYM_LEN\<close>; \<^verbatim>\<open>web_pages.h\<close> declares both. For every
  page the dump reads back as exactly the data, the decimal literal reads back as their
  number, and the length entry of the page is that number. The page comes from a qualifying
  file of the directory: with gzip the data are the gzip stream of the file's bytes and the
  length is the compressed size, without gzip the data are the file's bytes and the length
  is the raw size.
\<close>

theorem emitted_arrays_and_lengths:
  "web_dir w = Some listing \<Longrightarrow>
   \<exists>pages w'.
     gen env w = Inr w' \<and>
     gen_pages env listing = Inr pages \<and>
     files w' PAGES_CPP = Some
       (''#include <Arduino.h>'' @ NL @
        ''#include '' @ DQ @ ''web_pages.h'' @ DQ @ NL @ NL @
        concat (map (\<lambda>p.
           ''const uint8_t '' @ sym p @ ''[] PROGMEM = {'' @ NL @
           hex_dump 0 (data p) @ NL @ ''};'' @ NL @
           ''const size_t '' @ sym p @ ''_LEN = '' @ str_nat (length (data p)) @ '';'' @
           NL @ NL) pages)) \<and>
     files w' ROUTER_CPP = Some
       (''#include <string.h>'' @ NL @
        ''#include '' @ DQ @ ''page_router.h'' @ DQ @ NL @
        ''#include '' @ DQ @ ''web_pages.h'' @ DQ @ NL @ NL @
        ''static const Page pages[] = {'' @ NL @
        concat (map (\<lambda>p.
           ''  { '' @ DQ @ url p @ DQ @ '', '' @ sym p @ '', '' @ sym p @ ''_LEN, '' @
           DQ @ mime p @ DQ @ '', '' @ (if gzip p then ''true'' else ''false'') @ '' },'' @
           NL) pages) @
        ''};'' @ NL @ NL @
        findPage_text) \<and>
     files w' PAGES_H = Some
       (''#ifndef WEB_PAGES_H'' @ NL @
        ''#define WEB_PAGES_H'' @ NL @ NL @
        ''#include <Arduino.h>'' @ NL @ NL @
        concat (map (\<lambda>p.
           ''extern const uint8_t '' @ sym p @ ''[];'' @ NL @
           ''extern const size_t '' @ sym p @ ''_LEN;'' @ NL @ NL) pages) @
        ''#endif'' @ NL) \<and>
     (\<forall>p \<in> set pages.
        len p = length (data p) \<and>
        read_array (hex_dump 0 (data p) @ NL) = Some (data p) \<and>
        read_dec 0 (str_nat (length (data p))) = Some (length (data p)) \<and>
        data_sym (static_Page p) = sym p \<and>
        len_sym (static_Page p) = sym p @ ''_LEN'' \<and>
        (\<exists>f \<in> set listing.
           qualifies f \<and> make_page env f (ext_of f) = Inr p \<and>
           (gzip p \<longleftrightarrow> \<not> is_nogz (name f)) \<and>
           (gzip p \<longrightarrow>
              data p = gzip_compress env (time_time env (name f)) (read_bytes f) \<and>
              len p = length (gzip_compress env (time_time env (name f)) (read_bytes f))) \<and>
           (\<not> gzip p \<longrightarrow> data p = read_bytes f \<and> len p = length (read_bytes f))))"
proof -
  assume w: "web_dir w = Some listing"
  from gen_pages_total [of env listing] obtain pages where
    pages: "gen_pages env listing = Inr pages"
    by blast
  note src = page_source [OF pages]
  let ?w' = "w\<lparr>files := (files w)
                (PAGES_H \<mapsto> web_pages_h pages,
                 PAGES_CPP \<mapsto> web_pages_cpp pages,
                 ROUTER_CPP \<mapsto> page_router_cpp pages),
              stdout := stdout w @ [''Generated '' @ str_nat (length pages) @ '' web assets'']\<rparr>"
  have g: "gen env w = Inr ?w'"
    using w pages by (simp add: gen_def)
  have ne: "PAGES_H \<noteq> PAGES_CPP" "PAGES_H \<noteq> ROUTER_CPP" "PAGES_CPP \<noteq> ROUTER_CPP"
    by (simp_all add: PAGES_H_def PAGES_CPP_def ROUTER_CPP_def)
  have f: "files ?w' PAGES_CPP = Some (web_pages_cpp pages)"
    "files ?w' ROUTER_CPP = Some (page_router_cpp pages)"
    "files ?w' PAGES_H = Some (web_pages_h pages)"
    using ne by simp_all
  have c: "map (\<lambda>p. cpp_array p @ cpp_len p) pages =
      map (\<lambda>p.
           ''const uint8_t '' @ sym p @ ''[] PROGMEM = {'' @ NL @
           hex_dump 0 (data p) @ NL @ ''};'' @ NL @
           ''const size_t '' @ sym p @ ''_LEN = '' @ str_nat (length (data p)) @ '';'' @
           NL @ NL) pages"
    using src by (intro map_cong refl) (simp add: cpp_array_def cpp_len_def)
  have r: "map router_row pages =
      map (\<lambda>p.
           ''  { '' @ DQ @ url p @ DQ @ '', '' @ sym p @ '', '' @ sym p @ ''_LEN, '' @
           DQ @ mime p @ DQ @ '', '' @ (if gzip p then ''true'' else ''false'') @ '' },'' @
           NL) pages"
    by (intro map_cong refl) (simp add: router_row_def str_bool_lower_def)
  have h: "map h_decl pages =
      map (\<lambda>p.
           ''extern const uint8_t '' @ sym p @ ''[];'' @ NL @
           ''extern const size_t '' @ sym p @ ''_LEN;'' @ NL @ NL) pages"
    by (intro map_cong refl) (simp add: h_decl_def)
  have tc: "web_pages_cpp pages =
       (''#include <Arduino.h>'' @ NL @
        ''#include '' @ DQ @ ''web_pages.h'' @ DQ @ NL @ NL @
        concat (map (\<lambda>p.
           ''const uint8_t '' @ sym p @ ''[] PROGMEM = {'' @ NL @
           hex_dump 0 (data p) @ NL @ ''};'' @ NL @
           ''const size_t '' @ sym p @ ''_LEN = '' @ str_nat (length (data p)) @ '';'' @
           NL @ NL) pages))"
    unfolding web_pages_cpp_def c by simp
  have fc: "files ?w' PAGES_CPP = Some
       (''#include <Arduino.h>'' @ NL @
        ''#include '' @ DQ @ ''web_pages.h'' @ DQ @ NL @ NL @
        concat (map (\<lambda>p.
           ''const uint8_t '' @ sym p @ ''[] PROGMEM = {'' @ NL @
           hex_dump 0 (data p) @ NL @ ''};'' @ NL @
           ''const size_t '' @ sym p @ ''_LEN = '' @ str_nat (length (data p)) @ '';'' @
           NL @ NL) pages))"
    using f(1) by (simp only: tc)
  have tr: "page_router_cpp pages =
       (''#include <string.h>'' @ NL @
        ''#include '' @ DQ @ ''page_router.h'' @ DQ @ NL @
        ''#include '' @ DQ @ ''web_pages.h'' @ DQ @ NL @ NL @
        ''static const Page pages[] = {'' @ NL @
        concat (map (\<lambda>p.
           ''  { '' @ DQ @ url p @ DQ @ '', '' @ sym p @ '', '' @ sym p @ ''_LEN, '' @
           DQ @ mime p @ DQ @ '', '' @ (if gzip p then ''true'' else ''false'') @ '' },'' @
           NL) pages) @
        ''};'' @ NL @ NL @
        findPage_text)"
    unfolding page_router_cpp_def r by simp
  have fr: "files ?w' ROUTER_CPP = Some
       (''#include <string.h>'' @ NL @
        ''#include '' @ DQ @ ''page_router.h'' @ DQ @ NL @
        ''#include '' @ DQ @ ''web_pages.h'' @ DQ @ NL @ NL @
        ''static const Page pages[] = {'' @ NL @
        concat (map (\<lambda>p.
           ''  { '' @ DQ @ url p @ DQ @ '', '' @ sym p @ '', '' @ sym p @ ''_LEN, '' @
           DQ @ mime p @ DQ @ '', '' @ (if gzip p then ''true'' else ''false'') @ '' },'' @
           NL) pages) @
        ''};'' @ NL @ NL @
        findPage_text)"
    using f(2) by (simp only: tr)
  have th: "web_pages_h pages =
       (''#ifndef WEB_PAGES_H'' @ NL @
        ''#define WEB_PAGES_H'' @ NL @ NL @
        ''#include <Arduino.h>'' @ NL @ NL @
        concat (map (\<lambda>p.
           ''extern const uint8_t '' @ sym p @ ''[];'' @ NL @
           ''extern const size_t '' @ sym p @ ''_LEN;'' @ NL @ NL) pages) @
        ''#endif'' @ NL)"
    unfolding web_pages_h_def h by simp
  have fh: "files ?w' PAGES_H = Some
       (''#ifndef WEB_PAGES_H'' @ NL @
        ''#define WEB_PAGES_H'' @ NL @ NL @
        ''#include <Arduino.h>'' @ NL @ NL @
        concat (map (\<lambda>p.
           ''extern const uint8_t '' @ sym p @ ''[];'' @ NL @
           ''extern const size_t '' @ sym p @ ''_LEN;'' @ NL @ NL) pages) @
        ''#endif'' @ NL)"
    using f(3) by (simp only: th)
  show ?thesis
    apply (rule exI [of _ pages])
    apply (rule exI [of _ ?w'])
    apply (rule conjI, rule g)
    apply (rule conjI, rule pages)
    apply (rule conjI, rule fc)
    apply (rule conjI, rule fr)
    apply (rule conjI, rule fh)
    apply (rule ballI)
    apply (rule src, assumption)
    done
qed


theorem emitted_arrays_and_lengths_witness:
  "\<exists>w'.
     gen (stored_env 0)
       \<lparr>web_dir = Some [file_entry ''b.js'' [], file_entry ''a.nogz.css'' [2, 0xab]],
        files = Map.empty, stdout = []\<rparr> = Inr w' \<and>
     files w' PAGES_CPP = Some
       (''#include <Arduino.h>'' @ NL @
        ''#include '' @ DQ @ ''web_pages.h'' @ DQ @ NL @ NL @
        ''const uint8_t A_NOGZ_CSS[] PROGMEM = {'' @ NL @
        ''0x02,0xab,'' @ NL @
        ''};'' @ NL @
        ''const size_t A_NOGZ_CSS_LEN = 2;'' @ NL @ NL @
        ''const uint8_t B_JS_GZ[] PROGMEM = {'' @ NL @
        ''0x1f,0x8b,0x08,0x00,0x00,0x00,0x00,0x00,0x02,0xff,0x01,0x00,'' @ NL @
        ''0x00,0xff,0xff,0x00,0x00,0x00,0x00,0x00,0x00,0x00,0x00,'' @ NL @
        ''};'' @ NL @
        ''const size_t B_JS_GZ_LEN = 23;'' @ NL @ NL) \<and>
     files w' ROUTER_CPP = Some
       (''#include <string.h>'' @ NL @
        ''#include '' @ DQ @ ''page_router.h'' @ DQ @ NL @
        ''#include '' @ DQ @ ''web_pages.h'' @ DQ @ NL @ NL @
        ''static const Page pages[] = {'' @ NL @
        ''  { '' @ DQ @ ''/a.css'' @ DQ @ '', A_NOGZ_CSS, A_NOGZ_CSS_LEN, '' @
          DQ @ ''text/css'' @ DQ @ '', false },'' @ NL @
        ''  { '' @ DQ @ ''/b.js'' @ DQ @ '', B_JS_GZ, B_JS_GZ_LEN, '' @
          DQ @ ''application/javascript'' @ DQ @ '', true },'' @ NL @
        ''};'' @ NL @ NL @
        findPage_text) \<and>
     read_array (''0x02,0xab,'' @ NL) = Some [2, 0xab] \<and>
     read_dec 0 ''2'' = Some 2 \<and>
     read_array
       (''0x1f,0x8b,0x08,0x00,0x00,0x00,0x00,0x00,0x02,0xff,0x01,0x00,'' @ NL @
        ''0x00,0xff,0xff,0x00,0x00,0x00,0x00,0x00,0x00,0x00,0x00,'' @ NL) =
       Some [0x1f, 0x8b, 8, 0, 0, 0, 0, 0, 2, 255, 1, 0, 0, 255, 255,
             0, 0, 0, 0, 0, 0, 0, 0] \<and>
     read_dec 0 ''23'' = Some 23"
proof -
  let ?b = "file_entry ''b.js'' []" and ?a = "file_entry ''a.nogz.css'' [2, 0xab]"
  let ?L = "[?b, ?a]"
  let ?W = "\<lparr>web_dir = Some ?L, files = Map.empty, stdout = []\<rparr>"
  let ?Z = "[0x1f, 0x8b, 8, 0, 0, 0, 0, 0, 2, 255, 1, 0, 0, 255, 255,
             0, 0, 0, 0, 0, 0, 0, 0 :: byte]"
  let ?Pa = "\<lparr>url = ''/a.css'', sym = ''A_NOGZ_CSS'', data = [2, 0xab], len = 2,
           mime = ''text/css'', gzip = False\<rparr>"
  let ?Pb = "\<lparr>url = ''/b.js'', sym = ''B_JS_GZ'', data = ?Z, len = 23,
           mime = ''application/javascript'', gzip = True\<rparr>"
  have s: "sort_key name ?L = [?a, ?b]"
    by simp
  have e: "lower (suffix_of ''b.js'') = ''.js''" "lower (suffix_of ''a.nogz.css'') = ''.css''"
    by (simp_all add: eval_names)
  have e': "is_file ?a" "is_file ?b" "name ?a = ''a.nogz.css''" "name ?b = ''b.js''"
    "read_bytes ?a = [2, 0xab]" "read_bytes ?b = []"
    by simp_all
  have mj: "MIME ''.js'' = Some ''application/javascript''"
    and mc: "MIME ''.css'' = Some ''text/css''"
    by (simp_all add: MIME_def)
  have y: "symbol ''b.js'' = ''B_JS''" "symbol ''a.nogz.css'' = ''A_NOGZ_CSS''"
    by (simp_all add: symbol_def upper_def upper_chr_def)
  have u: "url_of ''b.js'' = ''/b.js''" "url_of ''a.nogz.css'' = ''/a.css''"
    "\<not> is_nogz ''b.js''" "is_nogz ''a.nogz.css''"
    by (simp_all add: url_of_def is_nogz_def sublist_code(3))
  have t: "time_time (stored_env 0) nm = 0" for nm
    by (simp add: stored_env_def)
  have z: "gzip_compress (stored_env 0) 0 [] = ?Z"
    by code_simp
  have pa: "make_page (stored_env 0) ?a ''.css'' = Inr ?Pa"
    unfolding make_page_Inr [OF mc] e' by (simp add: y u)
  have pb: "make_page (stored_env 0) ?b ''.js'' = Inr ?Pb"
    unfolding make_page_Inr [OF mj] e' by (simp add: y u t z)
  have g: "gen_pages (stored_env 0) ?L = Inr [?Pa, ?Pb]"
    unfolding gen_pages_def s by (simp add: e mj mc pa pb)
  have ha: "hex_dump 0 (data ?Pa) = ''0x02,0xab,''"
    by (simp add: hex02_def digit_chr_def)
  have hb: "hex_dump 0 (data ?Pb) =
      ''0x1f,0x8b,0x08,0x00,0x00,0x00,0x00,0x00,0x02,0xff,0x01,0x00,'' @ NL @
      ''0x00,0xff,0xff,0x00,0x00,0x00,0x00,0x00,0x00,0x00,0x00,''"
    by (simp add: hex02_def digit_chr_def)
  have na: "str_nat (length (data ?Pa)) = ''2''"
    by (subst str_nat.simps) (simp add: digit_chr_def)
  have nb: "str_nat (length (data ?Pb)) = ''23''"
    by (subst str_nat.simps, subst str_nat.simps) (simp add: digit_chr_def)
  have wd: "web_dir ?W = Some ?L"
    by simp
  from emitted_arrays_and_lengths [OF wd, of "stored_env 0"] obtain pages w' where
    T: "gen (stored_env 0) ?W = Inr w'"
      "gen_pages (stored_env 0) ?L = Inr pages"
      "files w' PAGES_CPP = Some
       (''#include <Arduino.h>'' @ NL @
        ''#include '' @ DQ @ ''web_pages.h'' @ DQ @ NL @ NL @
        concat (map (\<lambda>p.
           ''const uint8_t '' @ sym p @ ''[] PROGMEM = {'' @ NL @
           hex_dump 0 (data p) @ NL @ ''};'' @ NL @
           ''const size_t '' @ sym p @ ''_LEN = '' @ str_nat (length (data p)) @ '';'' @
           NL @ NL) pages))"
      "files w' ROUTER_CPP = Some
       (''#include <string.h>'' @ NL @
        ''#include '' @ DQ @ ''page_router.h'' @ DQ @ NL @
        ''#include '' @ DQ @ ''web_pages.h'' @ DQ @ NL @ NL @
        ''static const Page pages[] = {'' @ NL @
        concat (map (\<lambda>p.
           ''  { '' @ DQ @ url p @ DQ @ '', '' @ sym p @ '', '' @ sym p @ ''_LEN, '' @
           DQ @ mime p @ DQ @ '', '' @ (if gzip p then ''true'' else ''false'') @ '' },'' @
           NL) pages) @
        ''};'' @ NL @ NL @
        findPage_text)"
      "\<forall>p \<in> set pages.
        read_array (hex_dump 0 (data p) @ NL) = Some (data p) \<and>
        read_dec 0 (str_nat (length (data p))) = Some (length (data p))"
    by (elim exE conjE) blast
  from T(2) g have p: "pages = [?Pa, ?Pb]"
    by simp
  have c1: "files w' PAGES_CPP = Some
       (''#include <Arduino.h>'' @ NL @
        ''#include '' @ DQ @ ''web_pages.h'' @ DQ @ NL @ NL @
        ''const uint8_t A_NOGZ_CSS[] PROGMEM = {'' @ NL @
        ''0x02,0xab,'' @ NL @
        ''};'' @ NL @
        ''const size_t A_NOGZ_CSS_LEN = 2;'' @ NL @ NL @
        ''const uint8_t B_JS_GZ[] PROGMEM = {'' @ NL @
        ''0x1f,0x8b,0x08,0x00,0x00,0x00,0x00,0x00,0x02,0xff,0x01,0x00,'' @ NL @
        ''0x00,0xff,0xff,0x00,0x00,0x00,0x00,0x00,0x00,0x00,0x00,'' @ NL @
        ''};'' @ NL @
        ''const size_t B_JS_GZ_LEN = 23;'' @ NL @ NL)"
    using T(3) unfolding p list.map concat.simps ha hb na nb by simp
  have c2: "files w' ROUTER_CPP = Some
       (''#include <string.h>'' @ NL @
        ''#include '' @ DQ @ ''page_router.h'' @ DQ @ NL @
        ''#include '' @ DQ @ ''web_pages.h'' @ DQ @ NL @ NL @
        ''static const Page pages[] = {'' @ NL @
        ''  { '' @ DQ @ ''/a.css'' @ DQ @ '', A_NOGZ_CSS, A_NOGZ_CSS_LEN, '' @
          DQ @ ''text/css'' @ DQ @ '', false },'' @ NL @
        ''  { '' @ DQ @ ''/b.js'' @ DQ @ '', B_JS_GZ, B_JS_GZ_LEN, '' @
          DQ @ ''application/javascript'' @ DQ @ '', true },'' @ NL @
        ''};'' @ NL @ NL @
        findPage_text)"
    using T(4) unfolding p by simp
  from T(5) have ra: "read_array (hex_dump 0 (data ?Pa) @ NL) = Some (data ?Pa)"
    and da: "read_dec 0 (str_nat (length (data ?Pa))) = Some (length (data ?Pa))"
    and rb: "read_array (hex_dump 0 (data ?Pb) @ NL) = Some (data ?Pb)"
    and db: "read_dec 0 (str_nat (length (data ?Pb))) = Some (length (data ?Pb))"
    unfolding p by simp_all
  have ra': "read_array (''0x02,0xab,'' @ NL) = Some [2, 0xab]"
    using ra unfolding ha by simp
  have da': "read_dec 0 ''2'' = Some 2"
    using da unfolding na by simp
  have rb': "read_array
       (''0x1f,0x8b,0x08,0x00,0x00,0x00,0x00,0x00,0x02,0xff,0x01,0x00,'' @ NL @
        ''0x00,0xff,0xff,0x00,0x00,0x00,0x00,0x00,0x00,0x00,0x00,'' @ NL) = Some ?Z"
    using rb unfolding hb by simp
  have db': "read_dec 0 ''23'' = Some 23"
    using db unfolding nb by simp
  from T(1) c1 c2 ra' da' rb' db' show ?thesis
    by (intro exI [of _ w'] conjI)
qed


subsection \<open>Stored bytes\<close>

lemma gunzip_gzip_compress:
  assumes "inflate (deflate env raw @ le32 (crc32 raw) @ le32 (of_nat (length raw))) =
             Some (raw, le32 (crc32 raw) @ le32 (of_nat (length raw)))"
  shows "gunzip inflate (gzip_compress env mtime raw) = Some raw"
proof -
  have h: "gzip_compress env mtime raw =
      [0x1f, 0x8b, 8, 0] @ (le32 mtime @ [2, 255]) @
      (deflate env raw @ le32 (crc32 raw) @ le32 (of_nat (length raw)))"
    by (simp add: gzip_compress_def gzip_header_def)
  have l: "length (le32 mtime @ [2, 255 :: byte]) = 6"
    by (simp add: le32_def)
  have d: "drop 10 (gzip_compress env mtime raw) =
      deflate env raw @ le32 (crc32 raw) @ le32 (of_nat (length raw))"
    unfolding h using l by (simp add: le32_def)
  have t: "take 4 (gzip_compress env mtime raw) = [0x1f, 0x8b, 8, 0]"
    unfolding h by simp
  have n: "\<not> length (gzip_compress env mtime raw) < 10"
    unfolding h using l by simp
  show ?thesis
    unfolding gunzip_def using n by (simp only: t d assms) simp
qed

text \<open>
  Claim C4. Let \<open>inflate\<close> decode what the deflate encoder of the run produces from the
  bytes of each file of the directory (zlib's encoder and decoder are not part of the
  repository; that they are inverse is the hypothesis). Then the pages of a run pair off, in
  order, with the qualifying files: a page is gzip-enabled exactly when its file's name lacks
  the marker \<open>.nogz.\<close>; decompressing the stored bytes of a gzip-enabled page gives the
  bytes of its file; the stored bytes of a page whose file carries the marker are the bytes
  of the file, unchanged.
\<close>

theorem stored_bytes_round_trip:
  assumes "gen_pages env listing = Inr pages"
    and "\<forall>f \<in> set listing. \<forall>t. inflate (deflate env (read_bytes f) @ t) = Some (read_bytes f, t)"
  shows "list_all2
           (\<lambda>f p. make_page env f (ext_of f) = Inr p \<and>
                  (gzip p \<longleftrightarrow> \<not> is_nogz (name f)) \<and>
                  (gzip p \<longrightarrow> gunzip inflate (data p) = Some (read_bytes f)) \<and>
                  (is_nogz (name f) \<longrightarrow> data p = read_bytes f))
           (filter qualifies (sort_key name listing)) pages"
proof -
  from gen_pages_total [of env listing] assms(1)
  have "map (\<lambda>f. make_page env f (ext_of f)) (filter qualifies (sort_key name listing)) =
        map Inr pages"
    by simp
  then have "list_all2 (\<lambda>f p. make_page env f (ext_of f) = Inr p)
      (filter qualifies (sort_key name listing)) pages"
    by (rule list_all2_map_eq)
  then show ?thesis
  proof (rule list.rel_mono_strong)
    fix f p
    assume f: "f \<in> set (filter qualifies (sort_key name listing))"
      and p: "make_page env f (ext_of f) = Inr p"
    from f have q: "qualifies f" and m: "f \<in> set listing"
      by simp_all
    note d = make_page_data [OF q p]
    from assms(2) m have
      "inflate (deflate env (read_bytes f) @
          le32 (crc32 (read_bytes f)) @ le32 (of_nat (length (read_bytes f)))) =
       Some (read_bytes f, le32 (crc32 (read_bytes f)) @ le32 (of_nat (length (read_bytes f))))"
      by blast
    from gunzip_gzip_compress [of inflate env "read_bytes f" "time_time env (name f)", OF this] d p
    show "make_page env f (ext_of f) = Inr p \<and>
          (gzip p \<longleftrightarrow> \<not> is_nogz (name f)) \<and>
          (gzip p \<longrightarrow> gunzip inflate (data p) = Some (read_bytes f)) \<and>
          (is_nogz (name f) \<longrightarrow> data p = read_bytes f)"
      by simp
  qed
qed

lemma stored_codec_example:
  "stored_inflate (stored_deflate [0x61] @ t) = Some ([0x61], t)"
  by (simp add: stored_inflate_def stored_deflate_def le16_def Let_def)

theorem stored_bytes_round_trip_witness:
  "\<exists>pj pc.
     gen_pages (stored_env 7) [file_entry ''app.js'' [0x61], file_entry ''a.nogz.css'' [0x61]] =
       Inr [pc, pj] \<and>
     gzip pj \<and> gunzip stored_inflate (data pj) = Some [0x61] \<and>
     \<not> gzip pc \<and> data pc = [0x61]"
proof -
  let ?js = "file_entry ''app.js'' [0x61]" and ?css = "file_entry ''a.nogz.css'' [0x61]"
  let ?L = "[?js, ?css]"
  have s: "sort_key name ?L = [?css, ?js]"
    by simp
  have e: "ext_of ?js = ''.js''" "ext_of ?css = ''.css''"
    by (simp_all add: eval_names)
  then have q: "qualifies ?js" "qualifies ?css"
    by (simp_all add: qualifies_iff)
  have z: "\<not> is_nogz ''app.js''" "is_nogz ''a.nogz.css''"
    by (simp_all add: is_nogz_def sublist_code(3))
  from gen_pages_total [of "stored_env 7" ?L] obtain pages where
    g: "gen_pages (stored_env 7) ?L = Inr pages"
    by blast
  have c: "\<forall>f \<in> set ?L. \<forall>t.
      stored_inflate (deflate (stored_env 7) (read_bytes f) @ t) = Some (read_bytes f, t)"
    by (simp add: stored_env_def stored_codec_example)
  from stored_bytes_round_trip [OF g c]
  have "list_all2
           (\<lambda>f p. make_page (stored_env 7) f (ext_of f) = Inr p \<and>
                  (gzip p \<longleftrightarrow> \<not> is_nogz (name f)) \<and>
                  (gzip p \<longrightarrow> gunzip stored_inflate (data p) = Some (read_bytes f)) \<and>
                  (is_nogz (name f) \<longrightarrow> data p = read_bytes f))
           [?css, ?js] pages"
    unfolding s using q by simp
  then obtain pc pj where "pages = [pc, pj]"
    "gzip pj" "gunzip stored_inflate (data pj) = Some [0x61]"
    "\<not> gzip pc" "data pc = [0x61]"
    using z by (auto simp: list_all2_Cons1)
  with g show ?thesis by blast
qed


subsection \<open>Two runs over the same directory\<close>

lemma filter_same_key:
  "distinct (map f xs) \<Longrightarrow> k \<in> set xs \<Longrightarrow> filter (\<lambda>x. f k = f x) xs = [k]"
proof (induction xs)
  case Nil
  then show ?case by simp
next
  case (Cons x xs)
  show ?case
  proof (cases "k = x")
    case True
    with Cons.prems(1) have "filter (\<lambda>y. f x = f y) xs = []"
      by (auto simp: filter_empty_conv)
    with True show ?thesis by simp
  next
    case False
    with Cons.prems have k: "k \<in> set xs" and d: "distinct (map f xs)"
      and n: "f x \<notin> f ` set xs"
      by auto
    from k n have "f k \<noteq> f x" by (metis imageI)
    with Cons.IH [OF d k] show ?thesis by simp
  qed
qed

lemma sort_key_listing_order:
  assumes "mset l1 = mset l2" and "distinct (map f l1)"
  shows "sort_key f l1 = sort_key f l2"
proof (rule properties_for_sort_key)
  show "mset (sort_key f l2) = mset l1"
    using assms(1) by simp
  show "sorted (map f (sort_key f l2))"
    by simp
  fix k
  assume "k \<in> set (sort_key f l2)"
  then have k2: "k \<in> set l2" by simp
  then have k1: "k \<in> set l1"
    using assms(1) mset_eq_setD by blast
  have "mset (map f l1) = mset (map f l2)"
    using assms(1) by simp
  with assms(2) have "distinct (map f l2)"
    using mset_eq_imp_distinct_iff by blast
  then have "distinct (map f (sort_key f l2))"
    by (simp add: distinct_map)
  from filter_same_key [OF this, of k] filter_same_key [OF assms(2) k1] k2
  show "filter (\<lambda>x. f k = f x) (sort_key f l2) = filter (\<lambda>x. f k = f x) l1"
    by simp
qed

lemma le32_length [simp]: "length (le32 w) = 4"
  by (simp add: le32_def)

lemma gzip_compress_off_mtime:
  assumes "deflate env1 = deflate env2"
  shows "length (gzip_compress env1 t1 raw) = length (gzip_compress env2 t2 raw)"
    and "take 4 (gzip_compress env1 t1 raw) = take 4 (gzip_compress env2 t2 raw)"
    and "drop 8 (gzip_compress env1 t1 raw) = drop 8 (gzip_compress env2 t2 raw)"
  using assms by (simp_all add: gzip_compress_def gzip_header_def)

lemma list_all2_common_source:
  "map Inr ps1 = map g1 fs \<Longrightarrow> map Inr ps2 = map g2 fs \<Longrightarrow>
   list_all2 (\<lambda>p1 p2. \<exists>f \<in> set fs. g1 f = Inr p1 \<and> g2 f = Inr p2) ps1 ps2"
proof (induction fs arbitrary: ps1 ps2)
  case Nil
  then show ?case by simp
next
  case (Cons f fs)
  from Cons.prems obtain p1 r1 p2 r2 where
    ps: "ps1 = p1 # r1" "ps2 = p2 # r2" and
    h: "g1 f = Inr p1" "g2 f = Inr p2" and
    r: "map Inr r1 = map g1 fs" "map Inr r2 = map g2 fs"
    by (cases ps1; cases ps2) auto
  have "list_all2 (\<lambda>p1 p2. \<exists>f \<in> set fs. g1 f = Inr p1 \<and> g2 f = Inr p2) r1 r2"
    by (rule Cons.IH [OF r])
  then have "list_all2 (\<lambda>p1 p2. \<exists>f' \<in> set (f # fs). g1 f' = Inr p1 \<and> g2 f' = Inr p2) r1 r2"
    by (rule list_all2_mono) auto
  with h ps show ?case by auto
qed

lemma list_all2_map_cong:
  "list_all2 R xs ys \<Longrightarrow> (\<And>x y. R x y \<Longrightarrow> g x = g y) \<Longrightarrow> map g xs = map g ys"
  by (induction rule: list_all2_induct) auto


lemma make_page_same_but_mtime:
  assumes "deflate env1 = deflate env2"
    and "make_page env1 f e = Inr p1" and "make_page env2 f e = Inr p2"
  shows "same_but_mtime p1 p2"
proof -
  from assms(2) obtain m where m: "MIME e = Some m"
    by (cases "MIME e") (auto simp: make_page_def Let_def)
  note g = gzip_compress_off_mtime [OF assms(1),
      of "time_time env1 (name f)" "read_bytes f" "time_time env2 (name f)"]
  from make_page_Inr [OF m, of env1 f] make_page_Inr [OF m, of env2 f] assms(2,3) g
  show ?thesis
    by (auto simp: same_but_mtime_def)
qed

lemma make_page_same_clock:
  assumes "deflate env1 = deflate env2" and "time_time env1 (name f) = time_time env2 (name f)"
  shows "make_page env1 f e = make_page env2 f e"
proof -
  have "gzip_compress env1 (time_time env1 (name f)) raw =
        gzip_compress env2 (time_time env2 (name f)) raw" for raw
    using assms by (simp add: gzip_compress_def)
  then show ?thesis
    by (simp add: make_page_def Let_def split: option.splits)
qed

lemma same_but_mtime_texts:
  assumes "list_all2 same_but_mtime ps1 ps2"
  shows "web_pages_h ps1 = web_pages_h ps2"
    and "page_router_cpp ps1 = page_router_cpp ps2"
    and "length ps1 = length ps2"
proof -
  have "map h_decl ps1 = map h_decl ps2"
    using assms by (rule list_all2_map_cong) (simp add: same_but_mtime_def h_decl_def)
  then show "web_pages_h ps1 = web_pages_h ps2"
    by (simp add: web_pages_h_def)
  have "map router_row ps1 = map router_row ps2"
    using assms by (rule list_all2_map_cong) (simp add: same_but_mtime_def router_row_def)
  then show "page_router_cpp ps1 = page_router_cpp ps2"
    by (simp add: page_router_cpp_def)
  show "length ps1 = length ps2"
    using assms by (rule list_all2_lengthD)
qed

lemma gen_files:
  assumes "gen_pages env l = Inr ps"
  shows "gen env (w\<lparr>web_dir := Some l\<rparr>) =
     Inr (w\<lparr>web_dir := Some l,
            files := (files w)
              (PAGES_H \<mapsto> web_pages_h ps,
               PAGES_CPP \<mapsto> web_pages_cpp ps,
               ROUTER_CPP \<mapsto> page_router_cpp ps),
            stdout := stdout w @ [''Generated '' @ str_nat (length ps) @ '' web assets'']\<rparr>)"
  using assms by (simp add: gen_def)

lemma path_names_distinct:
  "PAGES_H \<noteq> PAGES_CPP" "PAGES_H \<noteq> ROUTER_CPP" "PAGES_CPP \<noteq> ROUTER_CPP"
  by (simp_all add: PAGES_H_def PAGES_CPP_def ROUTER_CPP_def)

text \<open>
  Claim C1, as amended. Take two runs over the same directory: the same entries (names,
  kinds, contents), listed in any order, and the same deflate encoder. Neither run fails.
  They write the same \<^verbatim>\<open>web_pages.h\<close> and the same \<^verbatim>\<open>page_router.cpp\<close> (so the same
  table in the same order) and print the same line. \<^verbatim>\<open>web_pages.cpp\<close> of each run holds,
  for each of its pages in order, the array with the dump of the page's data and the length
  constant with the page's length. Their pages agree, in order, in URL,
  symbol, length (and the text of the length constant), MIME type and gzip flag. The data
  of a page without gzip are the same in both runs; the data of a gzip-enabled page are the
  same in every byte but bytes 4 to 7, the modification time that \<^verbatim>\<open>gzip.compress\<close>
  takes from the clock. When the clock readings of the two runs are the same, the pages and
  all three files are the same.
\<close>

theorem runs_agree_up_to_mtime:
  assumes "mset l1 = mset l2" and "distinct (map name l1)" and "deflate env1 = deflate env2"
  shows "\<exists>ps1 ps2 u1 u2.
     gen env1 (w\<lparr>web_dir := Some l1\<rparr>) = Inr u1 \<and>
     gen env2 (w\<lparr>web_dir := Some l2\<rparr>) = Inr u2 \<and>
     gen_pages env1 l1 = Inr ps1 \<and> gen_pages env2 l2 = Inr ps2 \<and>
     files u1 PAGES_CPP = Some
       (''#include <Arduino.h>'' @ NL @
        ''#include '' @ DQ @ ''web_pages.h'' @ DQ @ NL @ NL @
        concat (map (\<lambda>p.
           ''const uint8_t '' @ sym p @ ''[] PROGMEM = {'' @ NL @
           hex_dump 0 (data p) @ NL @ ''};'' @ NL @
           ''const size_t '' @ sym p @ ''_LEN = '' @ str_nat (len p) @ '';'' @
           NL @ NL) ps1)) \<and>
     files u2 PAGES_CPP = Some
       (''#include <Arduino.h>'' @ NL @
        ''#include '' @ DQ @ ''web_pages.h'' @ DQ @ NL @ NL @
        concat (map (\<lambda>p.
           ''const uint8_t '' @ sym p @ ''[] PROGMEM = {'' @ NL @
           hex_dump 0 (data p) @ NL @ ''};'' @ NL @
           ''const size_t '' @ sym p @ ''_LEN = '' @ str_nat (len p) @ '';'' @
           NL @ NL) ps2)) \<and>
     files u1 PAGES_H = files u2 PAGES_H \<and>
     files u1 ROUTER_CPP = files u2 ROUTER_CPP \<and>
     stdout u1 = stdout u2 \<and>
     list_all2
       (\<lambda>p1 p2. url p1 = url p2 \<and> sym p1 = sym p2 \<and> len p1 = len p2 \<and>
                 mime p1 = mime p2 \<and> gzip p1 = gzip p2 \<and> cpp_len p1 = cpp_len p2 \<and>
                 length (data p1) = length (data p2) \<and>
                 (\<not> gzip p1 \<longrightarrow> data p1 = data p2) \<and>
                 (gzip p1 \<longrightarrow> take 4 (data p1) = take 4 (data p2) \<and>
                            drop 8 (data p1) = drop 8 (data p2)))
       ps1 ps2 \<and>
     ((\<forall>f \<in> set l1. time_time env1 (name f) = time_time env2 (name f)) \<longrightarrow>
        ps1 = ps2 \<and> files u1 = files u2)"
proof -
  let ?fs = "filter qualifies (sort_key name l1)"
  have s: "sort_key name l1 = sort_key name l2"
    by (rule sort_key_listing_order [OF assms(1,2)])
  from gen_pages_total [of env1 l1] obtain ps1 where
    ps1: "gen_pages env1 l1 = Inr ps1"
         "map Inr ps1 = map (\<lambda>f. make_page env1 f (ext_of f)) ?fs"
    by blast
  from gen_pages_total [of env2 l2] obtain ps2 where
    ps2: "gen_pages env2 l2 = Inr ps2"
         "map Inr ps2 = map (\<lambda>f. make_page env2 f (ext_of f)) ?fs"
    unfolding s [symmetric] by blast
  have "list_all2 (\<lambda>p1 p2. \<exists>f \<in> set ?fs.
      make_page env1 f (ext_of f) = Inr p1 \<and> make_page env2 f (ext_of f) = Inr p2) ps1 ps2"
    by (rule list_all2_common_source [OF ps1(2) ps2(2)])
  then have same: "list_all2 same_but_mtime ps1 ps2"
    by (rule list_all2_mono) (auto intro: make_page_same_but_mtime [OF assms(3)])
  from same have pairs: "list_all2
       (\<lambda>p1 p2. url p1 = url p2 \<and> sym p1 = sym p2 \<and> len p1 = len p2 \<and>
                 mime p1 = mime p2 \<and> gzip p1 = gzip p2 \<and> cpp_len p1 = cpp_len p2 \<and>
                 length (data p1) = length (data p2) \<and>
                 (\<not> gzip p1 \<longrightarrow> data p1 = data p2) \<and>
                 (gzip p1 \<longrightarrow> take 4 (data p1) = take 4 (data p2) \<and>
                            drop 8 (data p1) = drop 8 (data p2)))
       ps1 ps2"
    by (rule list_all2_mono) (simp add: same_but_mtime_def cpp_len_def)
  note t = same_but_mtime_texts [OF same]
  note g1 = gen_files [OF ps1(1), of w] and g2 = gen_files [OF ps2(1), of w]
  have clock: "ps1 = ps2"
    if c: "\<forall>f \<in> set l1. time_time env1 (name f) = time_time env2 (name f)"
  proof -
    have "map (\<lambda>f. make_page env1 f (ext_of f)) ?fs = map (\<lambda>f. make_page env2 f (ext_of f)) ?fs"
      using c by (auto intro: make_page_same_clock [OF assms(3)])
    with ps1(2) ps2(2) have "map Inr ps1 = (map Inr ps2 :: (error + page) list)"
      by simp
    then show ?thesis
      by simp
  qed
  show ?thesis
    apply (rule exI [of _ ps1], rule exI [of _ ps2])
    apply (intro exI conjI)
              apply (rule g1)
             apply (rule g2)
            apply (rule ps1(1))
           apply (rule ps2(1))
          apply (simp add: path_names_distinct web_pages_cpp_def cpp_array_def cpp_len_def)
         apply (simp add: path_names_distinct web_pages_cpp_def cpp_array_def cpp_len_def)
        apply (simp add: path_names_distinct t)
       apply (simp add: path_names_distinct t)
      apply (simp add: t)
     apply (rule pairs)
    apply (simp add: clock t)
    done
qed


theorem runs_agree_up_to_mtime_witness:
  "\<exists>u1 u2.
     gen (stored_env 5)
       \<lparr>web_dir = Some [file_entry ''b.js'' [1], file_entry ''a.css'' [2]],
        files = Map.empty, stdout = []\<rparr> = Inr u1 \<and>
     gen (stored_env 5)
       \<lparr>web_dir = Some [file_entry ''a.css'' [2], file_entry ''b.js'' [1]],
        files = Map.empty, stdout = []\<rparr> = Inr u2 \<and>
     files u1 = files u2 \<and> stdout u1 = stdout u2"
proof -
  let ?l1 = "[file_entry ''b.js'' [1], file_entry ''a.css'' [2]]"
  let ?l2 = "[file_entry ''a.css'' [2], file_entry ''b.js'' [1]]"
  let ?w = "\<lparr>web_dir = None, files = Map.empty, stdout = []\<rparr>"
  have m: "mset ?l1 = mset ?l2"
    by (simp add: add_mset_commute)
  have d: "distinct (map name ?l1)"
    by simp
  from runs_agree_up_to_mtime [OF m d refl, of "stored_env 5" ?w]
  show ?thesis
    by simp blast
qed

text \<open>
  The clock reading is part of a compressed asset: two streams stamped with different times
  differ, whatever the deflate encoder.
\<close>

lemma le32_inj: "le32 a = le32 b \<Longrightarrow> a = b"
proof -
  assume h: "le32 a = le32 b"
  then have e: "(ucast a :: byte) = ucast b"
    "(ucast (drop_bit 8 a) :: byte) = ucast (drop_bit 8 b)"
    "(ucast (drop_bit 16 a) :: byte) = ucast (drop_bit 16 b)"
    "(ucast (drop_bit 24 a) :: byte) = ucast (drop_bit 24 b)"
    by (simp_all add: le32_def)
  show "a = b"
  proof (rule bit_word_eqI)
    fix n assume n: "n < LENGTH(32)"
    have b0: "bit (ucast w :: byte) k = (k < 8 \<and> bit w k)" for w :: "32 word" and k
      by (auto simp: bit_ucast_iff)
    have bk: "bit (ucast (drop_bit j w) :: byte) k = (k < 8 \<and> bit w (j + k))"
      for w :: "32 word" and k j
      by (auto simp: bit_ucast_iff bit_drop_bit_eq)
    have step: "bit a n = bit b n"
      if "(ucast (drop_bit j a) :: byte) = ucast (drop_bit j b)" "j \<le> n" "n < j + 8" for j
    proof -
      from that(1) have "bit (ucast (drop_bit j a) :: byte) (n - j) =
          bit (ucast (drop_bit j b) :: byte) (n - j)"
        by simp
      moreover from that(2,3) have "n - j < 8" "j + (n - j) = n"
        by simp_all
      ultimately show ?thesis
        by (simp only: bk simp_thms)
    qed
    consider "n < 8" | "8 \<le> n" "n < 16" | "16 \<le> n" "n < 24" | "24 \<le> n" "n < 32"
      using n by force
    then show "bit a n = bit b n"
    proof cases
      case 1
      with b0 [of a n] b0 [of b n] e(1) show ?thesis by simp
    next
      case 2
      with step [OF e(2)] show ?thesis by simp
    next
      case 3
      with step [OF e(3)] show ?thesis by simp
    next
      case 4
      with step [OF e(4)] show ?thesis by simp
    qed
  qed
qed

lemma gzip_compress_shows_mtime:
  "t1 \<noteq> t2 \<Longrightarrow> gzip_compress env1 t1 raw \<noteq> gzip_compress env2 t2 raw"
proof
  assume ne: "t1 \<noteq> t2" and eq: "gzip_compress env1 t1 raw = gzip_compress env2 t2 raw"
  from eq have "take 4 (drop 4 (gzip_compress env1 t1 raw)) =
      take 4 (drop 4 (gzip_compress env2 t2 raw))"
    by simp
  then have "le32 t1 = le32 t2"
    by (simp add: gzip_compress_def gzip_header_def le32_def)
  with ne le32_inj show False by blast
qed

text \<open>
  Claim C1 as stated fails: two runs over the directory that holds the one empty file
  \<open>a.js\<close>, with the same encoder, one at clock reading 0 and one at 1, produce different
  bytes for the asset, hence different \<^verbatim>\<open>web_pages.cpp\<close>.
\<close>

theorem gzip_mtime_counterexample:
  "deflate (stored_env 0) = deflate (stored_env 1) \<and>
   gen_pages (stored_env 0) [file_entry ''a.js'' []] =
     Inr [\<lparr>url = ''/a.js'', sym = ''A_JS_GZ'',
           data = [0x1f, 0x8b, 8, 0, 0, 0, 0, 0, 2, 255, 1, 0, 0, 255, 255,
                   0, 0, 0, 0, 0, 0, 0, 0],
           len = 23, mime = ''application/javascript'', gzip = True\<rparr>] \<and>
   gen_pages (stored_env 1) [file_entry ''a.js'' []] =
     Inr [\<lparr>url = ''/a.js'', sym = ''A_JS_GZ'',
           data = [0x1f, 0x8b, 8, 0, 1, 0, 0, 0, 2, 255, 1, 0, 0, 255, 255,
                   0, 0, 0, 0, 0, 0, 0, 0],
           len = 23, mime = ''application/javascript'', gzip = True\<rparr>] \<and>
   gen (stored_env 0)
     \<lparr>web_dir = Some [file_entry ''a.js'' []], files = Map.empty, stdout = []\<rparr> \<noteq>
   gen (stored_env 1)
     \<lparr>web_dir = Some [file_entry ''a.js'' []], files = Map.empty, stdout = []\<rparr>"
proof -
  let ?P0 = "\<lparr>url = ''/a.js'', sym = ''A_JS_GZ'',
           data = [0x1f, 0x8b, 8, 0, 0, 0, 0, 0, 2, 255, 1, 0, 0, 255, 255,
                   0, 0, 0, 0, 0, 0, 0, 0 :: byte],
           len = 23, mime = ''application/javascript'', gzip = True\<rparr>"
  let ?P1 = "\<lparr>url = ''/a.js'', sym = ''A_JS_GZ'',
           data = [0x1f, 0x8b, 8, 0, 1, 0, 0, 0, 2, 255, 1, 0, 0, 255, 255,
                   0, 0, 0, 0, 0, 0, 0, 0 :: byte],
           len = 23, mime = ''application/javascript'', gzip = True\<rparr>"
  let ?w = "\<lparr>web_dir = None, files = Map.empty, stdout = []\<rparr>"
  have e: "ext_of (file_entry ''a.js'' []) = ''.js''"
    by (simp add: eval_names)
  have m: "MIME ''.js'' = Some ''application/javascript''"
    by (simp add: MIME_def)
  have s: "symbol ''a.js'' = ''A_JS''"
    by (simp add: symbol_def upper_def upper_chr_def)
  have u: "url_of ''a.js'' = ''/a.js''" "\<not> is_nogz ''a.js''"
    by (simp_all add: url_of_def is_nogz_def sublist_code(3))
  have t: "time_time (stored_env k) nm = k" for k nm
    by (simp add: stored_env_def)
  have d0: "gzip_compress (stored_env 0) 0 [] =
      [0x1f, 0x8b, 8, 0, 0, 0, 0, 0, 2, 255, 1, 0, 0, 255, 255, 0, 0, 0, 0, 0, 0, 0, 0]"
    by code_simp
  have d1: "gzip_compress (stored_env 1) 1 [] =
      [0x1f, 0x8b, 8, 0, 1, 0, 0, 0, 2, 255, 1, 0, 0, 255, 255, 0, 0, 0, 0, 0, 0, 0, 0]"
    by code_simp
  have g0: "gen_pages (stored_env 0) [file_entry ''a.js'' []] = Inr [?P0]"
    using e by (simp add: gen_pages_def ext_of_def m make_page_Inr [OF m] s u t d0)
  have g1: "gen_pages (stored_env 1) [file_entry ''a.js'' []] = Inr [?P1]"
    using e by (simp add: gen_pages_def ext_of_def m make_page_Inr [OF m] s u t d1)
  have h0: "hex_dump 0 (data ?P0) =
      ''0x1f,0x8b,0x08,0x00,0x00,0x00,0x00,0x00,0x02,0xff,0x01,0x00,'' @ NL @
      ''0x00,0xff,0xff,0x00,0x00,0x00,0x00,0x00,0x00,0x00,0x00,''"
    by (simp add: hex02_def digit_chr_def)
  have h1: "hex_dump 0 (data ?P1) =
      ''0x1f,0x8b,0x08,0x00,0x01,0x00,0x00,0x00,0x02,0xff,0x01,0x00,'' @ NL @
      ''0x00,0xff,0xff,0x00,0x00,0x00,0x00,0x00,0x00,0x00,0x00,''"
    by (simp add: hex02_def digit_chr_def)
  have c: "web_pages_cpp [?P0] \<noteq> web_pages_cpp [?P1]"
    unfolding web_pages_cpp_def cpp_array_def list.map concat.simps h0 h1
    by simp
  have "gen (stored_env 0) (?w\<lparr>web_dir := Some [file_entry ''a.js'' []]\<rparr>) \<noteq>
        gen (stored_env 1) (?w\<lparr>web_dir := Some [file_entry ''a.js'' []]\<rparr>)"
  proof
    assume "gen (stored_env 0) (?w\<lparr>web_dir := Some [file_entry ''a.js'' []]\<rparr>) =
            gen (stored_env 1) (?w\<lparr>web_dir := Some [file_entry ''a.js'' []]\<rparr>)"
    then have "(Map.empty(PAGES_H \<mapsto> web_pages_h [?P0], PAGES_CPP \<mapsto> web_pages_cpp [?P0],
                  ROUTER_CPP \<mapsto> page_router_cpp [?P0])) PAGES_CPP =
               (Map.empty(PAGES_H \<mapsto> web_pages_h [?P1], PAGES_CPP \<mapsto> web_pages_cpp [?P1],
                  ROUTER_CPP \<mapsto> page_router_cpp [?P1])) PAGES_CPP"
      unfolding gen_files [OF g0] gen_files [OF g1] by simp
    then have "web_pages_cpp [?P0] = web_pages_cpp [?P1]"
      by (simp add: path_names_distinct)
    with c show False by contradiction
  qed
  moreover have "deflate (stored_env 0) = deflate (stored_env 1)"
    by (simp add: stored_env_def)
  ultimately show ?thesis
    using g0 g1 by simp
qed

end
